theory Spec2Isabelle
  imports Main
begin

section \<open>Python values and built-in operations used by conversion.py\<close>

text \<open>
  A Python \<^verbatim>\<open>str\<close> is modelled as \<open>string\<close>, each \<open>char\<close> standing for one code point
  below 256, and a list of lines as \<open>string list\<close>. An exception raised by the source is
  the left summand of the result.
\<close>

datatype error = IndexError | ValueError

text \<open>
  \<^verbatim>\<open>str.isspace\<close> on one character: the white space that \<^verbatim>\<open>strip\<close>, \<^verbatim>\<open>lstrip\<close> and
  \<^verbatim>\<open>rstrip\<close> remove.
\<close>

definition isspace :: "char \<Rightarrow> bool" where
  "isspace c \<longleftrightarrow>
     c \<in> {CHR 0x09, CHR 0x0A, CHR 0x0B, CHR 0x0C, CHR 0x0D, CHR 0x1C, CHR 0x1D, CHR 0x1E,
          CHR 0x1F, CHR 0x20, CHR 0x85, CHR 0xA0}"

definition str_lstrip :: "string \<Rightarrow> string" where
  "str_lstrip s = dropWhile isspace s"

definition str_rstrip :: "string \<Rightarrow> string" where
  "str_rstrip s = rev (dropWhile isspace (rev s))"

definition str_strip :: "string \<Rightarrow> string" where
  "str_strip s = str_rstrip (str_lstrip s)"

definition str_startswith :: "string \<Rightarrow> string \<Rightarrow> bool" where
  "str_startswith s p \<longleftrightarrow> take (length p) s = p"

definition str_endswith :: "string \<Rightarrow> string \<Rightarrow> bool" where
  "str_endswith s p \<longleftrightarrow> length p \<le> length s \<and> drop (length s - length p) s = p"

text \<open>
  \<^verbatim>\<open>s.find(sub)\<close>: the lowest index where \<open>sub\<close> occurs, \<open>None\<close> for Python's -1.
  \<^verbatim>\<open>sub in s\<close> and \<^verbatim>\<open>s.index(sub)\<close>, which raises ValueError, are read off it.
\<close>

fun str_find :: "string \<Rightarrow> string \<Rightarrow> nat option" where
  "str_find [] sub = (if sub = [] then Some 0 else None)"
| "str_find (c # cs) sub =
     (if str_startswith (c # cs) sub then Some 0 else map_option Suc (str_find cs sub))"

definition str_contains :: "string \<Rightarrow> string \<Rightarrow> bool" where
  "str_contains sub s \<longleftrightarrow> str_find s sub \<noteq> None"

definition str_index :: "string \<Rightarrow> string \<Rightarrow> error + nat" where
  "str_index s sub = (case str_find s sub of None \<Rightarrow> Inl ValueError | Some i \<Rightarrow> Inr i)"

text \<open>
  \<^verbatim>\<open>s.replace(old, new)\<close> replaces the occurrences of \<open>old\<close> from left to right without
  overlap; an empty \<open>old\<close> matches before every character and at the end.
  \<^verbatim>\<open>s.replace(old, new, 1)\<close> replaces the first occurrence only.
\<close>

fun str_replace :: "string \<Rightarrow> string \<Rightarrow> string \<Rightarrow> string" where
  "str_replace [] old new = (if old = [] then new else [])"
| "str_replace (c # cs) old new =
     (if old = [] then new @ c # str_replace cs old new
      else if str_startswith (c # cs) old
        then new @ str_replace (drop (length old - 1) cs) old new
      else c # str_replace cs old new)"

definition str_replace_first :: "string \<Rightarrow> string \<Rightarrow> string \<Rightarrow> string" where
  "str_replace_first s old new =
     (case str_find s old of
        None \<Rightarrow> s
      | Some i \<Rightarrow> take i s @ new @ drop (i + length old) s)"

text \<open>
  \<^verbatim>\<open>s.count(sub)\<close>, \<^verbatim>\<open>s.split(sep)\<close> for a non-empty separator (every separator of the
  source is a one-character literal) and \<^verbatim>\<open>sep.join(items)\<close>.
\<close>

fun str_count :: "string \<Rightarrow> string \<Rightarrow> nat" where
  "str_count [] sub = (if sub = [] then 1 else 0)"
| "str_count (c # cs) sub =
     (if sub = [] then Suc (str_count cs sub)
      else if str_startswith (c # cs) sub
        then Suc (str_count (drop (length sub - 1) cs) sub)
      else str_count cs sub)"

fun str_split :: "string \<Rightarrow> string \<Rightarrow> string list" where
  "str_split [] sep = ['''']"
| "str_split (c # cs) sep =
     (if str_startswith (c # cs) sep then [] # str_split (drop (length sep - 1) cs) sep
      else (case str_split cs sep of
              [] \<Rightarrow> [c # '''']
            | piece # pieces \<Rightarrow> (c # piece) # pieces))"

fun str_join :: "string \<Rightarrow> string list \<Rightarrow> string" where
  "str_join sep [] = []"
| "str_join sep [x] = x"
| "str_join sep (x # y # ys) = x @ sep @ str_join sep (y # ys)"

text \<open>
  Slices and subscripts with Python's integer indices: a negative index counts from the
  end, a slice bound is clamped to the sequence, a subscript out of range raises
  IndexError.
\<close>

definition slice_bound :: "nat \<Rightarrow> int \<Rightarrow> nat" where
  "slice_bound n i = (if i < 0 then nat (max 0 (int n + i)) else min n (nat i))"

definition slice :: "'a list \<Rightarrow> int \<Rightarrow> int \<Rightarrow> 'a list" where
  "slice xs i j = drop (slice_bound (length xs) i) (take (slice_bound (length xs) j) xs)"

definition slice_to :: "'a list \<Rightarrow> int \<Rightarrow> 'a list" where
  "slice_to xs j = take (slice_bound (length xs) j) xs"

definition slice_from :: "'a list \<Rightarrow> int \<Rightarrow> 'a list" where
  "slice_from xs i = drop (slice_bound (length xs) i) xs"

definition subscript :: "'a list \<Rightarrow> int \<Rightarrow> error + nat" where
  "subscript xs i =
     (if 0 \<le> i \<and> i < int (length xs) then Inr (nat i)
      else if i < 0 \<and> - int (length xs) \<le> i then Inr (nat (int (length xs) + i))
      else Inl IndexError)"

definition getitem :: "'a list \<Rightarrow> int \<Rightarrow> error + 'a" where
  "getitem xs i = (case subscript xs i of Inl e \<Rightarrow> Inl e | Inr j \<Rightarrow> Inr (xs ! j))"

definition setitem :: "'a list \<Rightarrow> int \<Rightarrow> 'a \<Rightarrow> error + 'a list" where
  "setitem xs i v = (case subscript xs i of Inl e \<Rightarrow> Inl e | Inr j \<Rightarrow> Inr (xs[j := v]))"

text \<open>
  A \<^verbatim>\<open>for\<close> loop over indices whose body may raise: the first exception ends the loop.
\<close>

fun for_each :: "(nat \<Rightarrow> 's \<Rightarrow> error + 's) \<Rightarrow> nat list \<Rightarrow> 's \<Rightarrow> error + 's" where
  "for_each body [] st = Inr st"
| "for_each body (i # is) st =
     (case body i st of Inl e \<Rightarrow> Inl e | Inr st' \<Rightarrow> for_each body is st')"


section \<open>find\_matching\_bracket\<close>

text \<open>
  The dictionary \<^verbatim>\<open>matching_chars\<close> of the source.
\<close>

definition matching_chars :: "char \<rightharpoonup> char" where
  "matching_chars =
     [CHR ''{'' \<mapsto> CHR ''}'', CHR ''('' \<mapsto> CHR '')'', CHR ''['' \<mapsto> CHR '']'']"

text \<open>
  One character of the inner loop acting on the deque \<open>d\<close>: \<^verbatim>\<open>d.popleft()\<close> on the
  closing character (IndexError when the deque is empty), \<^verbatim>\<open>d.append(matching_char)\<close>
  on the opening one.
\<close>

definition deque_step :: "char \<Rightarrow> char \<Rightarrow> char list \<Rightarrow> char \<Rightarrow> error + char list" where
  "deque_step matching_char closing d item =
     (if item = closing then (case d of [] \<Rightarrow> Inl IndexError | _ # d' \<Rightarrow> Inr d')
      else if item = matching_char then Inr (d @ [matching_char])
      else Inr d)"

text \<open>
  The inner loop \<^verbatim>\<open>for index, item in enumerate(line)\<close>: it either raises, returns from
  the function at \<open>index\<close> (the deque became empty), or runs to the end of the line and
  leaves the deque for the next line.
\<close>

datatype scan = Found nat | Pending "char list"

fun scan_line :: "char \<Rightarrow> char \<Rightarrow> char list \<Rightarrow> nat \<Rightarrow> string \<Rightarrow> error + scan" where
  "scan_line matching_char closing d index [] = Inr (Pending d)"
| "scan_line matching_char closing d index (item # rest) =
     (case deque_step matching_char closing d item of
        Inl e \<Rightarrow> Inl e
      | Inr d' \<Rightarrow>
          if d' = [] then Inr (Found index)
          else scan_line matching_char closing d' (Suc index) rest)"

text \<open>
  The outer loop \<^verbatim>\<open>for line_index in range(start_line_index, len(lines))\<close>, run on the
  lines from \<open>line_index\<close> on. Falling out of the loop returns the initial pair (-1, -1).
\<close>

fun scan_lines ::
  "char \<Rightarrow> char \<Rightarrow> nat \<Rightarrow> nat \<Rightarrow> char list \<Rightarrow> nat \<Rightarrow> string list \<Rightarrow> error + (int \<times> int)"
where
  "scan_lines matching_char closing start_line_index start_char_index d line_index [] =
     Inr (- 1, - 1)"
| "scan_lines matching_char closing start_line_index start_char_index d line_index (l # ls) =
     (let line = (if line_index = start_line_index then drop start_char_index l else l) in
      case scan_line matching_char closing d 0 line of
        Inl e \<Rightarrow> Inl e
      | Inr (Found index) \<Rightarrow>
          Inr (int line_index,
               if line_index = start_line_index then int (start_char_index + index)
               else int index)
      | Inr (Pending d') \<Rightarrow>
          scan_lines matching_char closing start_line_index start_char_index d'
            (Suc line_index) ls)"

text \<open>
  \<^verbatim>\<open>find_matching_bracket(lines, start_line_index, start_char_index, matching_char)\<close>.
  The two indices are the non-negative positions the callers pass (an index of
  \<^verbatim>\<open>enumerate\<close> and a result of \<^verbatim>\<open>str.index\<close>). The message printed for an unsupported
  character is not modelled.
\<close>

definition find_matching_bracket ::
  "string list \<Rightarrow> nat \<Rightarrow> nat \<Rightarrow> char \<Rightarrow> error + (int \<times> int)"
where
  "find_matching_bracket lines start_line_index start_char_index matching_char =
     (case matching_chars matching_char of
        None \<Rightarrow> Inr (- 1, - 1)
      | Some closing \<Rightarrow>
          scan_lines matching_char closing start_line_index start_char_index []
            start_line_index (drop start_line_index lines))"

text \<open>
  Notions of the specification of the bracket matcher: the text that is scanned from the
  start position, the span of text from the start position through a match position, and
  bracket text that is well balanced for one kind of bracket.
\<close>

definition scanned_text :: "string list \<Rightarrow> nat \<Rightarrow> nat \<Rightarrow> string" where
  "scanned_text lines start_line_index start_char_index =
     drop start_char_index (lines ! start_line_index) @
     concat (drop (Suc start_line_index) lines)"

definition span :: "string list \<Rightarrow> nat \<Rightarrow> nat \<Rightarrow> nat \<Rightarrow> nat \<Rightarrow> string" where
  "span lines start_line_index start_char_index match_line match_char =
     (if match_line = start_line_index
      then drop start_char_index (take (Suc match_char) (lines ! start_line_index))
      else drop start_char_index (lines ! start_line_index) @
           concat (drop (Suc start_line_index) (take match_line lines)) @
           take (Suc match_char) (lines ! match_line))"

fun balanced_from :: "char \<Rightarrow> char \<Rightarrow> nat \<Rightarrow> string \<Rightarrow> bool" where
  "balanced_from opening closing depth [] = (depth = 0)"
| "balanced_from opening closing depth (c # cs) =
     (if c = closing then 0 < depth \<and> balanced_from opening closing (depth - 1) cs
      else if c = opening then balanced_from opening closing (Suc depth) cs
      else balanced_from opening closing depth cs)"

definition well_balanced :: "char \<Rightarrow> char \<Rightarrow> string list \<Rightarrow> bool" where
  "well_balanced opening closing lines = balanced_from opening closing 0 (concat lines)"

section \<open>format\_params\<close>

text \<open>
  Characters that cannot be written inside a string literal: the two quote characters,
  the newline and the backslash.
\<close>

definition quote :: string where
  "quote = [CHR 0x27]"

definition dquote :: string where
  "dquote = [CHR 0x22]"

definition newline :: string where
  "newline = [CHR 0x0A]"

definition backslash :: string where
  "backslash = [CHR 0x5C]"

text \<open>
  The generator \<^verbatim>\<open>find_all(a_str, sub)\<close> nested in \<^verbatim>\<open>format_params\<close>, as the list it
  yields: the first argument is the text from \<open>start\<close> on, \<open>start\<close> the index reached in
  \<^verbatim>\<open>a_str\<close>. The separator \<open>sub\<close> is not empty: \<^verbatim>\<open>format_params\<close> is called with its
  default \<^verbatim>\<open>sep=':'\<close> only, which \<open>sep\<close> below stands for.
\<close>

fun find_all :: "string \<Rightarrow> string \<Rightarrow> nat \<Rightarrow> nat list" where
  "find_all [] sub start = []"
| "find_all (c # cs) sub start =
     (if str_startswith (c # cs) sub
      then start # find_all (drop (length sub - 1) cs) sub (start + length sub)
      else find_all cs sub (Suc start))"

definition sep :: string where
  "sep = '':''"

definition unquoted :: "string \<Rightarrow> bool" where
  "unquoted item \<longleftrightarrow> \<not> str_contains dquote item \<and> \<not> str_contains quote item"

text \<open>
  The body of the loop of the branch \<^verbatim>\<open>count == 1\<close>, and the body of the loop of the
  branch \<^verbatim>\<open>count > 1\<close>, both acting on the list \<open>items\<close> at index \<open>i\<close>.
\<close>

definition quote_one :: "nat \<Rightarrow> string list \<Rightarrow> error + string list" where
  "quote_one i items =
     (case getitem items (int i) of
        Inl e \<Rightarrow> Inl e
      | Inr items_i \<Rightarrow>
          let item = str_strip items_i in
          if unquoted item
          then Inr (items[i := str_replace items_i item (quote @ item @ quote)])
          else Inr items)"

definition quote_many :: "nat \<Rightarrow> string list \<Rightarrow> error + string list" where
  "quote_many i items =
     (case getitem items (int i) of
        Inl e \<Rightarrow> Inl e
      | Inr item \<Rightarrow>
          if str_contains '','' item then
            (let subitems = str_split item '','' in
             case getitem subitems (- 1) of
               Inl e \<Rightarrow> Inl e
             | Inr subitem \<Rightarrow>
                 if unquoted subitem then
                   (let new_subitem = quote @ str_strip subitem @ quote in
                    case setitem subitems (- 1) (str_replace subitem subitem new_subitem) of
                      Inl e \<Rightarrow> Inl e
                    | Inr subitems' \<Rightarrow> Inr (items[i := str_join '', '' subitems']))
                 else Inr items)
          else if unquoted item then
            (let new_item = quote @ str_strip item @ quote;
                 padding = length item - length (str_strip item)
             in Inr (items[i := replicate padding CHR '' '' @ str_replace item item new_item]))
          else Inr items)"

definition format_params :: "string \<Rightarrow> error + string" where
  "format_params line0 =
     (if str_startswith (str_strip line0) ''for'' then Inr line0
      else
        let indices = find_all line0 sep 0;
            count = length indices
        in
        case (if str_contains ''{'' line0 then
                (case str_index line0 ''{'' of
                   Inl e \<Rightarrow> Inl e
                 | Inr bracket_index \<Rightarrow>
                     (case getitem indices 0 of
                        Inl e \<Rightarrow> Inl e
                      | Inr first \<Rightarrow>
                          if bracket_index < first
                          then Inr (take (bracket_index + 1) line0,
                                    drop (bracket_index + 1) line0)
                          else Inr ([], line0)))
              else Inr ([], line0)) of
          Inl e \<Rightarrow> Inl e
        | Inr (prefix, line) \<Rightarrow>
            if count > 0 then
              (let items = str_split line sep in
               case for_each (if count = 1 then quote_one else quote_many) [0..<count] items of
                 Inl e \<Rightarrow> Inl e
               | Inr items' \<Rightarrow> Inr (prefix @ str_join '':'' items'))
            else Inr (prefix @ line0))"

section \<open>use\_math and convert\_for\_loop\<close>

definition use_math :: "string list \<Rightarrow> bool" where
  "use_math lines \<longleftrightarrow> list_ex (str_contains ''Math.'') lines"

fun map_result :: "('a \<Rightarrow> error + 'b) \<Rightarrow> 'a list \<Rightarrow> error + 'b list" where
  "map_result f [] = Inr []"
| "map_result f (x # xs) =
     (case f x of
        Inl e \<Rightarrow> Inl e
      | Inr y \<Rightarrow> (case map_result f xs of Inl e \<Rightarrow> Inl e | Inr ys \<Rightarrow> Inr (y # ys)))"

definition convert_for_loop :: "string \<Rightarrow> error + string" where
  "convert_for_loop line0 =
     (let line = (if str_contains ''var '' line0 then str_replace line0 ''var '' [] else line0) in
      case str_index line ''('' of
        Inl e \<Rightarrow> Inl e
      | Inr start_index \<Rightarrow>
      (case str_index line '')'' of
        Inl e \<Rightarrow> Inl e
      | Inr end_index \<Rightarrow>
          let prefix = take start_index line;
              suffix = drop (end_index + 1) line;
              params = drop (start_index + 1) (take end_index line)
          in
          if str_contains '' in '' params \<and> str_count params '';'' = 0
          then Inr (prefix @ params @ '':'' @ suffix)
          else
            (case getitem (str_split params ''='') 0 of
               Inl e \<Rightarrow> Inl e
             | Inr items_0 \<Rightarrow>
            (let param_name = str_strip items_0;
                 items = str_split params '';''
             in
             case map_result (\<lambda>item. getitem (str_split item '' '') (- 1)) items of
               Inl e \<Rightarrow> Inl e
             | Inr subitems \<Rightarrow>
            (case getitem subitems 0 of
               Inl e \<Rightarrow> Inl e
             | Inr start \<Rightarrow>
            (case getitem subitems 1 of
               Inl e \<Rightarrow> Inl e
             | Inr end \<Rightarrow>
            (case getitem subitems 2 of
               Inl e \<Rightarrow> Inl e
             | Inr step0 \<Rightarrow>
                 let step = (if str_contains ''++'' step0 then ''1''
                             else if str_contains ''--'' step0 then ''-1''
                             else step0)
                 in Inr (prefix @ param_name @ '' in range('' @ start @ '', '' @ end @
                           '', '' @ step @ ''):'' @ suffix))))))))"


section \<open>check\_map\_functions\<close>

text \<open>
  The state of the loop of \<^verbatim>\<open>check_map_functions\<close>: the list \<^verbatim>\<open>input_lines\<close>, which the
  loop updates in place, the list \<^verbatim>\<open>output_lines\<close> it builds, and the number of calls
  of \<^verbatim>\<open>random_string\<close> made so far. The random generator is a parameter: the function
  \<open>random_string\<close> gives the result of each call, in order.
\<close>

record hoister =
  input_lines :: "string list"
  output_lines :: "string list"
  random_calls :: nat

definition is_map_function :: "string \<Rightarrow> bool" where
  "is_map_function line \<longleftrightarrow>
     str_contains ''.map(function'' line \<or> str_contains ''.map (function'' line"

text \<open>
  The loop \<^verbatim>\<open>for sub_index, tmp_line in enumerate(input_lines[index+1: matching_line_index])\<close>
  sets the entry \<open>index + 1 + sub_index\<close> to the empty string for each line of the slice.
\<close>

definition blank_lines :: "string list \<Rightarrow> nat \<Rightarrow> nat \<Rightarrow> string list" where
  "blank_lines lines start n = fold (\<lambda>sub_index ls. ls[start + sub_index := []]) [0..<n] lines"

text \<open>
  One iteration of \<^verbatim>\<open>for index, line in enumerate(input_lines)\<close>; \<open>line\<close> is the entry
  of the list at \<open>index\<close> when the iteration starts.
\<close>

definition hoist_line :: "(nat \<Rightarrow> string) \<Rightarrow> nat \<Rightarrow> hoister \<Rightarrow> error + hoister" where
  "hoist_line random_string index st =
     (let line = input_lines st ! index in
      if is_map_function line then
        (case str_index line ''{'' of
           Inl e \<Rightarrow> Inl e
         | Inr bracket_index \<Rightarrow>
        (case find_matching_bracket (input_lines st) index bracket_index CHR ''{'' of
           Inl e \<Rightarrow> Inl e
         | Inr (matching_line_index, matching_char_index) \<Rightarrow>
        (case str_index line ''function'' of
           Inl e \<Rightarrow> Inl e
         | Inr func_start_index \<Rightarrow>
        (let func_name = ''func_'' @ random_string (random_calls st);
             func_header = str_replace (drop func_start_index line) ''function''
                             (''function '' @ func_name);
             body = slice (input_lines st) (int index + 1) matching_line_index;
             lines1 = blank_lines (input_lines st) (index + 1) (length body);
             header_line = str_rstrip (take func_start_index line @ func_name)
         in
         case getitem lines1 matching_line_index of
           Inl e \<Rightarrow> Inl e
         | Inr matching_line \<Rightarrow>
        (let func_footer = slice_to matching_line (matching_char_index + 1);
             footer_line = str_strip (slice_from matching_line (matching_char_index + 1));
             merge = (footer_line = '')'' \<or> footer_line = '');'');
             header_line' = (if merge then header_line @ footer_line else header_line);
             footer_line' = (if merge then [] else footer_line)
         in
         case setitem lines1 matching_line_index footer_line' of
           Inl e \<Rightarrow> Inl e
         | Inr lines2 \<Rightarrow>
             Inr \<lparr>input_lines = lines2,
                  output_lines = output_lines st @ [newline, func_header] @ body @
                                 [func_footer, header_line', footer_line'],
                  random_calls = Suc (random_calls st)\<rparr>)))))
      else Inr (st\<lparr>output_lines := output_lines st @ [line]\<rparr>))"

text \<open>
  \<^verbatim>\<open>check_map_functions(input_lines)\<close>, started after \<open>calls\<close> calls of the generator. The
  result is the final state: its \<open>output_lines\<close> is the list the source returns, its
  \<open>input_lines\<close> the argument list after the in-place updates. The loop visits the indices
  below the length of the list, which the updates do not change.
\<close>

definition check_map_functions ::
  "(nat \<Rightarrow> string) \<Rightarrow> nat \<Rightarrow> string list \<Rightarrow> error + hoister"
where
  "check_map_functions random_string calls lines =
     for_each (hoist_line random_string) [0..<length lines]
       \<lparr>input_lines = lines, output_lines = [], random_calls = calls\<rparr>"

text \<open>
  A generator for examples: every call returns \<^verbatim>\<open>abc\<close>.
\<close>

definition sample_names :: "nat \<Rightarrow> string" where
  "sample_names n = ''abc''"


section \<open>js\_to\_python\<close>

text \<open>
  \<^verbatim>\<open>s[:i] + s[i+1:]\<close>, the way the source deletes the bracket at index \<open>i\<close>.
\<close>

definition remove_char :: "string \<Rightarrow> int \<Rightarrow> string" where
  "remove_char s i = slice_to s i @ slice_from s (i + 1)"

text \<open>
  The steps of one iteration of the loop over the lines, in the order of the source.
  First the removal of a \<^verbatim>\<open>/* color ... */\<close> comment.
\<close>

definition strip_color :: "string \<Rightarrow> error + string" where
  "strip_color line =
     (if str_contains ''/* color'' line \<and> str_contains ''*/'' line then
        (case str_index line ''/*'' of
           Inl e \<Rightarrow> Inl e
         | Inr opening \<Rightarrow>
             (case str_index line ''*/'' of
                Inl e \<Rightarrow> Inl e
              | Inr closing \<Rightarrow> Inr (str_lstrip (take opening line) @ drop (closing + 2) line)))
      else Inr line)"

text \<open>
  The branch of a function declaration: both braces are deleted, the closing one in the
  list when it is on another line, and the header is rewritten to a \<^verbatim>\<open>def\<close>.
\<close>

definition is_function :: "string \<Rightarrow> bool" where
  "is_function line \<longleftrightarrow>
     str_contains ''= function'' line \<or> str_contains ''=function'' line \<or>
     str_startswith (str_strip line) ''function''"

definition convert_function ::
  "nat \<Rightarrow> string \<Rightarrow> string list \<Rightarrow> error + (string \<times> string list)"
where
  "convert_function index line lines =
     (case str_index line ''{'' of
        Inl e \<Rightarrow> Inl e
      | Inr bracket_index \<Rightarrow>
     (case find_matching_bracket lines index bracket_index CHR ''{'' of
        Inl e \<Rightarrow> Inl e
      | Inr (matching_line_index, matching_char_index) \<Rightarrow>
     (let line1 = take bracket_index line @ drop (bracket_index + 1) line in
      case (if matching_line_index = int index
            then Inr (remove_char line1 matching_char_index, lines)
            else (case getitem lines matching_line_index of
                    Inl e \<Rightarrow> Inl e
                  | Inr tmp_line \<Rightarrow>
                      (case setitem lines matching_line_index
                              (remove_char tmp_line matching_char_index) of
                         Inl e \<Rightarrow> Inl e
                       | Inr lines' \<Rightarrow> Inr (line1, lines')))) of
        Inl e \<Rightarrow> Inl e
      | Inr (line2, lines') \<Rightarrow>
          let line3 = str_replace (str_replace (str_replace line2 '' = function'' [])
                        ''=function'' []) ''function '' []
          in Inr (replicate (length line3 - length (str_lstrip line3)) CHR '' '' @
                  ''def '' @ str_strip line3 @ '':'', lines'))))"

text \<open>
  The branch of another line with an opening brace: a brace pair on one line with a colon
  is left alone, a \<^verbatim>\<open>for\<close> header is converted and its braces are deleted.
\<close>

definition convert_block ::
  "nat \<Rightarrow> string \<Rightarrow> string list \<Rightarrow> error + (string \<times> string list)"
where
  "convert_block index line lines =
     (case str_index line ''{'' of
        Inl e \<Rightarrow> Inl e
      | Inr bracket_index \<Rightarrow>
     (case find_matching_bracket lines index bracket_index CHR ''{'' of
        Inl e \<Rightarrow> Inl e
      | Inr (matching_line_index, matching_char_index) \<Rightarrow>
          if matching_line_index = int index \<and> str_contains '':'' line then Inr (line, lines)
          else if str_contains ''for ('' line \<or> str_contains ''for('' line then
            (case convert_for_loop line of
               Inl e \<Rightarrow> Inl e
             | Inr line1 \<Rightarrow>
            (let lines1 = lines[index := line1] in
             case str_index line1 ''{'' of
               Inl e \<Rightarrow> Inl e
             | Inr bracket_index1 \<Rightarrow>
            (case find_matching_bracket lines1 index bracket_index1 CHR ''{'' of
               Inl e \<Rightarrow> Inl e
             | Inr (matching_line_index1, matching_char_index1) \<Rightarrow>
            (case getitem lines1 matching_line_index1 of
               Inl e \<Rightarrow> Inl e
             | Inr tmp_line \<Rightarrow>
            (case setitem lines1 matching_line_index1
                    (remove_char tmp_line matching_char_index1) of
               Inl e \<Rightarrow> Inl e
             | Inr lines2 \<Rightarrow> Inr (str_replace line1 ''{'' [], lines2))))))
          else Inr (line, lines)))"

text \<open>
  The textual replacements. The three replacements of the literals \<^verbatim>\<open>true\<close>, \<^verbatim>\<open>false\<close>
  and \<^verbatim>\<open>null\<close> are a definition of their own.
\<close>

definition replace_literals :: "string \<Rightarrow> string" where
  "replace_literals line =
     str_replace (str_replace (str_replace line ''true'' ''True'') ''false'' ''False'')
       ''null'' ''{}''"

definition replacements :: "string \<Rightarrow> string" where
  "replacements line0 =
     (let line = str_replace line0 ''//'' ''#'';
          line = str_replace_first line ''var '' [];
          line = str_replace line ''/*'' ''#'';
          line = str_replace line ''*/'' ''#'';
          line = replace_literals line;
          line = str_replace line ''.or'' ''.Or'';
          line = str_replace line ''.and'' ''.And'';
          line = str_replace line ''.not'' ''.Not'';
          line = str_replace line ''visualize({'' ''visualize(**{'';
          line = str_replace line ''Math.PI'' ''math.pi'';
          line = str_replace line ''Math.'' ''math.'';
          line = str_replace line ''= new'' ''=''
      in str_rstrip line)"

definition line_end :: "string \<Rightarrow> string" where
  "line_end line =
     (let line = (if str_endswith line ''+'' then line @ '' '' @ backslash
                  else if str_endswith line '';'' then butlast line
                  else line)
      in if str_startswith (str_lstrip line) ''*'' then str_replace line ''*'' ''#'' else line)"

definition quote_keys :: "string \<Rightarrow> error + string" where
  "quote_keys line =
     (if str_contains '':'' line \<and> \<not> str_startswith (str_strip line) ''#'' \<and>
         \<not> str_startswith (str_strip line) ''def'' \<and> \<not> str_startswith (str_strip line) ''.''
      then format_params line else Inr line)"

text \<open>
  The state of the loop: the list \<^verbatim>\<open>lines\<close>, updated in place, is the field
  \<open>file_lines\<close>, and the text \<^verbatim>\<open>output\<close> is the field \<open>output_text\<close>.
\<close>

record transpiler =
  file_lines :: "string list"
  output_text :: string

definition emit :: "string \<Rightarrow> string \<Rightarrow> string" where
  "emit out line =
     (if str_startswith (str_lstrip line) ''.'' then
        (let line' = (case str_find line ''#'' of None \<Rightarrow> line | Some i \<Rightarrow> take i line)
         in str_rstrip out @ '' '' @ backslash @ newline @ line' @ newline)
      else out @ line @ newline)"

definition convert_line :: "nat \<Rightarrow> transpiler \<Rightarrow> error + transpiler" where
  "convert_line index st =
     (case strip_color (file_lines st ! index) of
        Inl e \<Rightarrow> Inl e
      | Inr line \<Rightarrow>
     (case (if is_function line then convert_function index line (file_lines st)
            else if str_contains ''{'' line then convert_block index line (file_lines st)
            else Inr (line, file_lines st)) of
        Inl e \<Rightarrow> Inl e
      | Inr (line1, lines') \<Rightarrow>
     (case quote_keys (line_end (replacements line1)) of
        Inl e \<Rightarrow> Inl e
      | Inr line2 \<Rightarrow>
          let line3 = (if Suc index < length lines' \<and> str_startswith (str_lstrip line2) ''#'' \<and>
                          str_startswith (str_lstrip (lines' ! Suc index)) ''.''
                       then [] else line2)
          in Inr \<lparr>file_lines = lines', output_text = emit (output_text st) line3\<rparr>)))"

text \<open>
  \<^verbatim>\<open>js_to_python(in_file, out_file, use_qgis, github_repo)\<close>. The file system is not
  modelled: \<open>in_file\<close> is the path of the input file as the source opens it, \<open>content\<close>
  the list \<^verbatim>\<open>f.readlines()\<close> of its lines, and the result is the text the source writes
  to \<^verbatim>\<open>out_file\<close> and returns. \<open>None\<close> for \<open>github_repo\<close> is Python's \<^verbatim>\<open>None\<close>.
\<close>

definition is_python :: "string list \<Rightarrow> bool" where
  "is_python content \<longleftrightarrow> list_ex (\<lambda>line. str_strip line = ''import ee'') content"

definition github_url :: "string option \<Rightarrow> string \<Rightarrow> string" where
  "github_url github_repo in_file =
     (case github_repo of
        None \<Rightarrow> []
      | Some repo \<Rightarrow> ''# GitHub URL: '' @ repo @ in_file @ newline @ newline)"

definition js_to_python ::
  "(nat \<Rightarrow> string) \<Rightarrow> string \<Rightarrow> string list \<Rightarrow> bool \<Rightarrow> string option \<Rightarrow> error + string"
where
  "js_to_python random_string in_file content use_qgis github_repo =
     (let qgis_import_str = (if use_qgis then ''from ee_plugin import Map '' @ newline else []);
          math_import_str = (if use_math content then ''import math'' @ newline else [])
      in
      if is_python content then Inr (github_url github_repo in_file @ concat content)
      else
        (let header = github_url github_repo in_file @ ''import ee '' @ newline @
                      qgis_import_str @ math_import_str
         in
         case check_map_functions random_string 0 content of
           Inl e \<Rightarrow> Inl e
         | Inr hoisted \<Rightarrow>
             (case for_each convert_line [0..<length (output_lines hoisted)]
                     \<lparr>file_lines = output_lines hoisted, output_text = header @ newline\<rparr> of
                Inl e \<Rightarrow> Inl e
              | Inr st \<Rightarrow> Inr (output_text st))))"


section \<open>Properties of find\_matching\_bracket\<close>

text \<open>
  While the deque is not empty, a character never raises, and the deque grows by one on an
  opening bracket and shrinks by one on a closing bracket.
\<close>

lemma deque_step_nonempty:
  assumes "opn \<noteq> cls" "d \<noteq> []"
  shows "\<exists>d'. deque_step opn cls d c = Inr d' \<and>
     length d' + (if c = cls then 1 else 0) = length d + (if c = opn then 1 else 0)"
  using assms by (cases d) (auto simp: deque_step_def)

lemma scan_line_no_raise:
  assumes "opn \<noteq> cls" "d \<noteq> []"
  shows "scan_line opn cls d idx s \<noteq> Inl e"
  using assms(2)
proof (induction s arbitrary: d idx)
  case Nil
  then show ?case by simp
next
  case (Cons c s)
  from deque_step_nonempty[OF assms(1) Cons.prems, of c]
  obtain d' where d': "deque_step opn cls d c = Inr d'" by blast
  show ?case using d' Cons.IH[of d' "Suc idx"] by simp
qed

lemma scan_line_Found:
  assumes "opn \<noteq> cls" "d \<noteq> []" "scan_line opn cls d idx s = Inr (Found j)"
  shows "\<exists>k. j = idx + k \<and> k < length s \<and> s ! k = cls \<and>
          length d + count_list (take (Suc k) s) opn = count_list (take (Suc k) s) cls"
  using assms(2,3)
proof (induction s arbitrary: d idx)
  case Nil
  then show ?case by simp
next
  case (Cons c s)
  from deque_step_nonempty[OF assms(1) Cons.prems(1), of c]
  obtain d' where d': "deque_step opn cls d c = Inr d'"
    and len: "length d' + (if c = cls then 1 else 0) = length d + (if c = opn then 1 else 0)"
    by blast
  show ?case
  proof (cases "d' = []")
    case True
    with d' Cons.prems(2) have "j = idx" by simp
    moreover from True len assms(1) Cons.prems(1) have "c = cls" "length d = 1" "c \<noteq> opn"
      by (auto split: if_splits)
    ultimately show ?thesis by (intro exI[of _ 0]) simp
  next
    case False
    with d' Cons.prems(2) have "scan_line opn cls d' (Suc idx) s = Inr (Found j)" by simp
    from Cons.IH[OF False this] obtain k where k: "j = Suc idx + k" "k < length s" "s ! k = cls"
      "length d' + count_list (take (Suc k) s) opn = count_list (take (Suc k) s) cls" by blast
    then show ?thesis using len assms(1)
      by (intro exI[of _ "Suc k"]) (auto split: if_splits)
  qed
qed

lemma scan_line_Pending:
  assumes "opn \<noteq> cls" "d \<noteq> []" "scan_line opn cls d idx s = Inr (Pending d')"
  shows "d' \<noteq> [] \<and> length d' + count_list s cls = length d + count_list s opn"
  using assms(2,3)
proof (induction s arbitrary: d idx)
  case Nil
  then show ?case by simp
next
  case (Cons c s)
  from deque_step_nonempty[OF assms(1) Cons.prems(1), of c]
  obtain d1 where d1: "deque_step opn cls d c = Inr d1"
    and len: "length d1 + (if c = cls then 1 else 0) = length d + (if c = opn then 1 else 0)"
    by blast
  from d1 Cons.prems(2) have ne: "d1 \<noteq> []" by (auto split: if_splits)
  with d1 Cons.prems(2) have "scan_line opn cls d1 (Suc idx) s = Inr (Pending d')" by simp
  from Cons.IH[OF ne this] len assms(1) show ?case by (auto split: if_splits)
qed

lemma scan_lines_later:
  assumes "opn \<noteq> cls" "d \<noteq> []" "sli < li"
  shows "(scan_lines opn cls sli sci d li ls = Inr (- 1, - 1) \<and>
            count_list (concat ls) cls < length d + count_list (concat ls) opn)
       \<or> (\<exists>m j. scan_lines opn cls sli sci d li ls = Inr (int (li + m), int j) \<and>
             m < length ls \<and> j < length (ls ! m) \<and> ls ! m ! j = cls \<and>
             length d + count_list (concat (take m ls) @ take (Suc j) (ls ! m)) opn =
               count_list (concat (take m ls) @ take (Suc j) (ls ! m)) cls)"
  using assms(2,3)
proof (induction ls arbitrary: d li)
  case Nil
  then show ?case by (cases d) auto
next
  case (Cons l ls)
  have nli: "li \<noteq> sli" using Cons.prems by simp
  show ?case
  proof (cases "scan_line opn cls d 0 l")
    case (Inl e)
    with scan_line_no_raise[OF assms(1) Cons.prems(1)] show ?thesis by blast
  next
    case (Inr r)
    show ?thesis
    proof (cases r)
      case (Found j)
      from scan_line_Found[OF assms(1) Cons.prems(1) Inr[unfolded Found]]
      have "j < length l" "l ! j = cls"
        "length d + count_list (take (Suc j) l) opn = count_list (take (Suc j) l) cls"
        by auto
      moreover have "scan_lines opn cls sli sci d li (l # ls) = Inr (int (li + 0), int j)"
        using Inr Found nli by simp
      ultimately show ?thesis
        by (intro disjI2 exI[of _ 0] exI[of _ j]) simp
    next
      case (Pending d')
      from scan_line_Pending[OF assms(1) Cons.prems(1) Inr[unfolded Pending]]
      have d': "d' \<noteq> []"
        and eq: "length d' + count_list l cls = length d + count_list l opn" by auto
      have lt: "sli < Suc li" using Cons.prems by simp
      have step: "scan_lines opn cls sli sci d li (l # ls) =
                  scan_lines opn cls sli sci d' (Suc li) ls"
        using Inr Pending nli by simp
      from Cons.IH[OF d' lt] show ?thesis
      proof (elim disjE exE conjE)
        assume "scan_lines opn cls sli sci d' (Suc li) ls = Inr (- 1, - 1)"
          "count_list (concat ls) cls < length d' + count_list (concat ls) opn"
        with step eq show ?thesis
          by (intro disjI1) simp
      next
        fix m j
        assume "scan_lines opn cls sli sci d' (Suc li) ls = Inr (int (Suc li + m), int j)"
          "m < length ls" "j < length (ls ! m)" "ls ! m ! j = cls"
          "length d' + count_list (concat (take m ls) @ take (Suc j) (ls ! m)) opn =
               count_list (concat (take m ls) @ take (Suc j) (ls ! m)) cls"
        with step eq show ?thesis
          by (intro disjI2 exI[of _ "Suc m"] exI[of _ j]) simp
      qed
    qed
  qed
qed


text \<open>
  The result of a scan that starts on the opening bracket: either the sentinel, and then
  the scanned text has more opening than closing brackets, or a position of a closing
  bracket that ends a balanced prefix of the scanned text.
\<close>

lemma matching_chars_neq: "matching_chars opn = Some cls \<Longrightarrow> opn \<noteq> cls"
  by (auto simp: matching_chars_def split: if_splits)

lemma concat_take_prefix:
  assumes "m < length ls" "j < length (ls ! m)"
  shows "concat (take m ls) @ take (Suc j) (ls ! m) =
         take (length (concat (take m ls)) + Suc j) (concat ls)"
proof -
  have "concat ls = concat (take m ls) @ ls ! m @ concat (drop (Suc m) ls)"
    using id_take_nth_drop[OF assms(1)] by (metis concat.simps(2) concat_append)
  then have "take (length (concat (take m ls)) + Suc j) (concat ls) =
             concat (take m ls) @ take (Suc j) (ls ! m @ concat (drop (Suc m) ls))"
    by (metis append_eq_conv_conj take_add)
  also have "take (Suc j) (ls ! m @ concat (drop (Suc m) ls)) = take (Suc j) (ls ! m)"
    using assms(2) by simp
  finally show ?thesis by simp
qed

lemma find_matching_bracket_core:
  assumes mc: "matching_chars opn = Some cls"
    and sli: "sli < length lines" and sci: "sci < length (lines ! sli)"
    and start: "lines ! sli ! sci = opn"
  shows "(find_matching_bracket lines sli sci opn = Inr (- 1, - 1) \<and>
          count_list (scanned_text lines sli sci) cls < count_list (scanned_text lines sli sci) opn)
       \<or> (\<exists>ml mch. find_matching_bracket lines sli sci opn = Inr (int ml, int mch) \<and>
            sli \<le> ml \<and> ml < length lines \<and> mch < length (lines ! ml) \<and>
            lines ! ml ! mch = cls \<and>
            count_list (span lines sli sci ml mch) opn = count_list (span lines sli sci ml mch) cls \<and>
            (\<exists>k. 0 < k \<and> k \<le> length (scanned_text lines sli sci) \<and>
                 span lines sli sci ml mch = take k (scanned_text lines sli sci)))"
proof -
  define l where "l = lines ! sli"
  define ls where "ls = drop (Suc sli) lines"
  define rest where "rest = drop (Suc sci) l"
  have neq: "opn \<noteq> cls" using mc by (rule matching_chars_neq)
  have dl: "drop sli lines = l # ls"
    using Cons_nth_drop_Suc[OF sli] by (simp add: l_def ls_def)
  have dc: "drop sci l = opn # rest"
    using Cons_nth_drop_Suc[OF sci] start by (simp add: l_def rest_def)
  have tf: "scanned_text lines sli sci = opn # rest @ concat ls"
    using dc by (simp add: scanned_text_def l_def ls_def)
  have first: "scan_line opn cls [] 0 (opn # rest) = scan_line opn cls [opn] (Suc 0) rest"
    using neq by (simp add: deque_step_def)
  have fmb: "find_matching_bracket lines sli sci opn =
      (case scan_line opn cls [opn] (Suc 0) rest of
        Inl e \<Rightarrow> Inl e
      | Inr (Found index) \<Rightarrow> Inr (int sli, int (sci + index))
      | Inr (Pending d') \<Rightarrow> scan_lines opn cls sli sci d' (Suc sli) ls)"
    using mc dl dc first by (simp add: find_matching_bracket_def del: scan_line.simps split: sum.splits scan.splits)
  have ne: "[opn] \<noteq> []" by simp
  show ?thesis
  proof (cases "scan_line opn cls [opn] (Suc 0) rest")
    case (Inl e)
    with scan_line_no_raise[OF neq ne] show ?thesis by blast
  next
    case (Inr r)
    show ?thesis
    proof (cases r)
      case (Found j)
      from scan_line_Found[OF neq ne Inr[unfolded Found]]
      obtain k where k: "j = Suc k" "k < length rest" "rest ! k = cls"
        "1 + count_list (take (Suc k) rest) opn = count_list (take (Suc k) rest) cls"
        by auto
      have res: "find_matching_bracket lines sli sci opn = Inr (int sli, int (sci + Suc k))"
        using fmb Inr Found k(1) by simp
      have lenl: "sci + Suc k < length l" using k(2) by (simp add: rest_def)
      have ch: "l ! (sci + Suc k) = cls" using k(3) lenl by (simp add: rest_def)
      have sp: "span lines sli sci sli (sci + Suc k) = opn # take (Suc k) rest"
      proof -
        have "span lines sli sci sli (sci + Suc k) = take (Suc (Suc k)) (drop sci l)"
          by (simp add: span_def l_def drop_take)
        then show ?thesis using dc by simp
      qed
      have cnt: "count_list (span lines sli sci sli (sci + Suc k)) opn =
                 count_list (span lines sli sci sli (sci + Suc k)) cls"
        using sp k(4) neq by simp
      have pre: "span lines sli sci sli (sci + Suc k) =
                 take (Suc (Suc k)) (scanned_text lines sli sci)"
        using sp tf k(2) by simp
      have klen: "Suc (Suc k) \<le> length (scanned_text lines sli sci)"
        using tf k(2) by simp
      show ?thesis
        apply (rule disjI2)
        apply (rule exI[of _ sli], rule exI[of _ "sci + Suc k"])
        using res sli lenl ch cnt pre klen unfolding l_def by blast
    next
      case (Pending d')
      from scan_line_Pending[OF neq ne Inr[unfolded Pending]]
      have d': "d' \<noteq> []" and eq: "length d' + count_list rest cls = 1 + count_list rest opn"
        by auto
      have res: "find_matching_bracket lines sli sci opn =
                 scan_lines opn cls sli sci d' (Suc sli) ls"
        using fmb Inr Pending by simp
      have lt: "sli < Suc sli" by simp
      from scan_lines_later[OF neq d' lt, of sci ls] show ?thesis
      proof (elim disjE exE conjE)
        assume a: "scan_lines opn cls sli sci d' (Suc sli) ls = Inr (- 1, - 1)"
          "count_list (concat ls) cls < length d' + count_list (concat ls) opn"
        have "count_list (scanned_text lines sli sci) cls <
              count_list (scanned_text lines sli sci) opn"
          using a(2) eq neq tf by simp
        with res a(1) show ?thesis by simp
      next
        fix m j
        assume a: "scan_lines opn cls sli sci d' (Suc sli) ls = Inr (int (Suc sli + m), int j)"
          "m < length ls" "j < length (ls ! m)" "ls ! m ! j = cls"
          "length d' + count_list (concat (take m ls) @ take (Suc j) (ls ! m)) opn =
             count_list (concat (take m ls) @ take (Suc j) (ls ! m)) cls"
        define ml where "ml = Suc sli + m"
        have mll: "ml < length lines" using a(2) by (simp add: ml_def ls_def)
        have lm: "lines ! ml = ls ! m" using mll by (simp add: ml_def ls_def)
        have tk: "drop (Suc sli) (take ml lines) = take m ls"
          by (simp add: ml_def ls_def drop_take)
        have sp: "span lines sli sci ml j =
                  (opn # rest) @ concat (take m ls) @ take (Suc j) (ls ! m)"
          using dc tk lm by (simp add: span_def ml_def l_def)
        have cnt: "count_list (span lines sli sci ml j) opn =
                   count_list (span lines sli sci ml j) cls"
          using sp a(5) eq neq by simp
        have pre: "span lines sli sci ml j =
           take (Suc (length rest) + (length (concat (take m ls)) + Suc j))
             (scanned_text lines sli sci)"
          using sp tf concat_take_prefix[OF a(2,3)] by simp
        have "length (concat (take m ls) @ take (Suc j) (ls ! m)) \<le> length (concat ls)"
          unfolding concat_take_prefix[OF a(2,3)] by simp
        then have klen: "Suc (length rest) + (length (concat (take m ls)) + Suc j)
            \<le> length (scanned_text lines sli sci)"
          using tf a(3) by simp
        have r2: "find_matching_bracket lines sli sci opn = Inr (int ml, int j)"
          using res a(1) by (simp add: ml_def)
        have le: "sli \<le> ml" by (simp add: ml_def)
        have jl: "j < length (lines ! ml)" using a(3) lm by simp
        have chr: "lines ! ml ! j = cls" using a(4) lm by simp
        show ?thesis
          apply (rule disjI2)
          apply (rule exI[of _ ml], rule exI[of _ j])
          using r2 le mll jl chr cnt pre klen by blast
      qed
    qed
  qed
qed

text \<open>
  In well-balanced text every suffix has at least as many closing as opening brackets.
\<close>

lemma balanced_from_count:
  assumes "opn \<noteq> cls"
  shows "balanced_from opn cls k s \<Longrightarrow> k + count_list s opn = count_list s cls"
proof (induction s arbitrary: k)
  case Nil
  then show ?case by simp
next
  case (Cons c s)
  show ?case
  proof (cases "c = cls")
    case True
    with Cons.prems have "0 < k" "balanced_from opn cls (k - 1) s" by auto
    with Cons.IH[of "k - 1"] True assms show ?thesis by simp
  next
    case False
    show ?thesis
    proof (cases "c = opn")
      case True
      with Cons.prems False have "balanced_from opn cls (Suc k) s" by simp
      with Cons.IH[of "Suc k"] True False show ?thesis by simp
    next
      case nop: False
      with Cons.prems False have "balanced_from opn cls k s" by simp
      with Cons.IH[of k] nop False show ?thesis by simp
    qed
  qed
qed

lemma balanced_from_suffix:
  "balanced_from opn cls k (p @ q) \<Longrightarrow> \<exists>k'. balanced_from opn cls k' q"
  by (induction p arbitrary: k) (auto split: if_splits)

lemma concat_split_at:
  assumes "sli < length lines"
  shows "concat lines =
    (concat (take sli lines) @ take sci (lines ! sli)) @ scanned_text lines sli sci"
proof -
  have "concat lines = concat (take sli lines) @ lines ! sli @ concat (drop (Suc sli) lines)"
    using id_take_nth_drop[OF assms] by (metis concat.simps(2) concat_append)
  also have "lines ! sli = take sci (lines ! sli) @ drop sci (lines ! sli)" by simp
  finally show ?thesis by (simp add: scanned_text_def)
qed

text \<open>
  Claim C2. When the bracket text of the lines is well balanced and the character at
  (\<open>start_line_index\<close>, \<open>start_char_index\<close>) is the opening bracket, the function returns
  a position inside the lines whose character is the closing counterpart, and the span
  from the start position through that position holds as many opening as closing brackets.
\<close>

theorem find_matching_bracket_balanced:
  assumes "matching_chars opn = Some cls"
    and "well_balanced opn cls lines"
    and "sli < length lines" and "sci < length (lines ! sli)"
    and "lines ! sli ! sci = opn"
  shows "\<exists>ml mch. find_matching_bracket lines sli sci opn = Inr (int ml, int mch) \<and>
           ml < length lines \<and> mch < length (lines ! ml) \<and> lines ! ml ! mch = cls \<and>
           count_list (span lines sli sci ml mch) opn =
             count_list (span lines sli sci ml mch) cls"
proof -
  have neq: "opn \<noteq> cls" using assms(1) by (rule matching_chars_neq)
  from assms(2) obtain k' where "balanced_from opn cls k' (scanned_text lines sli sci)"
    unfolding well_balanced_def concat_split_at[OF assms(3), of sci]
    using balanced_from_suffix by blast
  from balanced_from_count[OF neq this]
  have "\<not> count_list (scanned_text lines sli sci) cls < count_list (scanned_text lines sli sci) opn"
    by simp
  with find_matching_bracket_core[OF assms(1,3,4,5)] show ?thesis by blast
qed

theorem find_matching_bracket_balanced_witness:
  "matching_chars CHR ''{'' = Some CHR ''}'' \<and>
   well_balanced CHR ''{'' CHR ''}'' [''a {'', ''b {}'', ''}''] \<and>
   find_matching_bracket [''a {'', ''b {}'', ''}''] 0 2 CHR ''{'' = Inr (2, 0) \<and>
   (\<exists>ml mch. find_matching_bracket [''a {'', ''b {}'', ''}''] 0 2 CHR ''{'' = Inr (int ml, int mch) \<and>
      ml < length [''a {'', ''b {}'', ''}''] \<and> mch < length ([''a {'', ''b {}'', ''}''] ! ml) \<and>
      [''a {'', ''b {}'', ''}''] ! ml ! mch = CHR ''}'' \<and>
      count_list (span [''a {'', ''b {}'', ''}''] 0 2 ml mch) CHR ''{'' =
        count_list (span [''a {'', ''b {}'', ''}''] 0 2 ml mch) CHR ''}'')"
proof -
  have h1: "matching_chars CHR ''{'' = Some CHR ''}''" by (simp add: matching_chars_def)
  have h2: "well_balanced CHR ''{'' CHR ''}'' [''a {'', ''b {}'', ''}'']"
    by (simp add: well_balanced_def)
  have h3: "0 < length [''a {'', ''b {}'', ''}'']" by simp
  have h4: "2 < length ([''a {'', ''b {}'', ''}''] ! 0)" by simp
  have h5: "[''a {'', ''b {}'', ''}''] ! 0 ! 2 = CHR ''{''" by simp
  have r: "find_matching_bracket [''a {'', ''b {}'', ''}''] 0 2 CHR ''{'' = Inr (2, 0)"
    by (simp add: find_matching_bracket_def matching_chars_def deque_step_def)
  show ?thesis using h1 h2 r find_matching_bracket_balanced[OF h1 h2 h3 h4 h5] by blast
qed

text \<open>
  Claim C6. When the scan starts on the opening bracket and no prefix of the scanned text
  is balanced (each holds more opening than closing brackets, so the deque never empties),
  the function returns the pair (-1, -1) and does not raise.
\<close>

theorem find_matching_bracket_unclosed:
  assumes "matching_chars opn = Some cls"
    and "sli < length lines" and "sci < length (lines ! sli)"
    and "lines ! sli ! sci = opn"
    and "\<forall>k. 0 < k \<and> k \<le> length (scanned_text lines sli sci) \<longrightarrow>
           count_list (take k (scanned_text lines sli sci)) cls <
           count_list (take k (scanned_text lines sli sci)) opn"
  shows "find_matching_bracket lines sli sci opn = Inr (- 1, - 1)"
  using find_matching_bracket_core[OF assms(1,2,3,4)] assms(5)
  by (metis less_irrefl)

theorem find_matching_bracket_unclosed_witness:
  "matching_chars CHR ''('' = Some CHR '')'' \<and>
   [''f((x)'', ''y''] ! 0 ! 1 = CHR ''('' \<and>
   find_matching_bracket [''f((x)'', ''y''] 0 1 CHR ''('' = Inr (- 1, - 1)"
proof -
  have h1: "matching_chars CHR ''('' = Some CHR '')''" by (simp add: matching_chars_def)
  have h2: "0 < length [''f((x)'', ''y'']" by simp
  have h3: "1 < length ([''f((x)'', ''y''] ! 0)" by simp
  have h4: "[''f((x)'', ''y''] ! 0 ! 1 = CHR ''(''" by simp
  have tf: "scanned_text [''f((x)'', ''y''] 0 1 = ''((x)y''"
    by (simp add: scanned_text_def)
  have h5: "\<forall>k. 0 < k \<and> k \<le> length (scanned_text [''f((x)'', ''y''] 0 1) \<longrightarrow>
           count_list (take k (scanned_text [''f((x)'', ''y''] 0 1)) CHR '')'' <
           count_list (take k (scanned_text [''f((x)'', ''y''] 0 1)) CHR ''(''"
  proof (intro allI impI)
    fix k :: nat
    assume "0 < k \<and> k \<le> length (scanned_text [''f((x)'', ''y''] 0 1)"
    then have "k = 1 \<or> k = 2 \<or> k = 3 \<or> k = 4 \<or> k = 5" unfolding tf by auto
    then show "count_list (take k (scanned_text [''f((x)'', ''y''] 0 1)) CHR '')'' <
           count_list (take k (scanned_text [''f((x)'', ''y''] 0 1)) CHR ''(''"
      unfolding tf by (elim disjE) (simp_all add: numeral_eq_Suc)
  qed
  show ?thesis using h1 h4 find_matching_bracket_unclosed[OF h1 h2 h3 h4 h5] by blast
qed

text \<open>
  Claim C10. The function is not total: there is an input whose start character is not the
  opening bracket on which \<^verbatim>\<open>popleft\<close> raises IndexError; when the start character is the
  given opening bracket the function always returns.
\<close>

theorem find_matching_bracket_not_total:
  "(\<exists>lines sli sci. sli < length lines \<and> sci < length (lines ! sli) \<and>
       lines ! sli ! sci \<noteq> CHR ''{'' \<and>
       find_matching_bracket lines sli sci CHR ''{'' = Inl IndexError) \<and>
   (sli < length lines \<and> sci < length (lines ! sli) \<and> lines ! sli ! sci = opn \<longrightarrow>
      (\<exists>r. find_matching_bracket lines sli sci opn = Inr r))"
proof (intro conjI impI)
  have "find_matching_bracket [''}''] 0 0 CHR ''{'' = Inl IndexError"
    by (simp add: find_matching_bracket_def matching_chars_def deque_step_def)
  then show "\<exists>lines sli sci. sli < length lines \<and> sci < length (lines ! sli) \<and>
       lines ! sli ! sci \<noteq> CHR ''{'' \<and>
       find_matching_bracket lines sli sci CHR ''{'' = Inl IndexError"
    by (intro exI[of _ "[''}'']"] exI[of _ 0]) simp
next
  assume a: "sli < length lines \<and> sci < length (lines ! sli) \<and> lines ! sli ! sci = opn"
  show "\<exists>r. find_matching_bracket lines sli sci opn = Inr r"
  proof (cases "matching_chars opn")
    case None
    then show ?thesis by (simp add: find_matching_bracket_def)
  next
    case (Some cls)
    from a find_matching_bracket_core[OF Some, of sli lines sci] show ?thesis by blast
  qed
qed

theorem find_matching_bracket_not_total_witness:
  "0 < length [''a(b)''] \<and> 1 < length ([''a(b)''] ! 0) \<and> [''a(b)''] ! 0 ! 1 = CHR ''('' \<and>
   find_matching_bracket [''a(b)''] 0 1 CHR ''('' = Inr (0, 3) \<and>
   find_matching_bracket [''a)b''] 0 1 CHR ''('' = Inl IndexError"
proof -
  have h: "0 < length [''a(b)''] \<and> 1 < length ([''a(b)''] ! 0) \<and> [''a(b)''] ! 0 ! 1 = CHR ''(''"
    by simp
  have r: "find_matching_bracket [''a(b)''] 0 1 CHR ''('' = Inr (0, 3)"
    by (simp add: find_matching_bracket_def matching_chars_def deque_step_def)
  have e: "find_matching_bracket [''a)b''] 0 1 CHR ''('' = Inl IndexError"
    by (simp add: find_matching_bracket_def matching_chars_def deque_step_def)
  from find_matching_bracket_not_total[of 0 "[''a(b)'']" 1 "CHR ''(''"] h
  have "\<exists>r. find_matching_bracket [''a(b)''] 0 1 CHR ''('' = Inr r" by blast
  with h r e show ?thesis by blast
qed

section \<open>Properties of the string operations\<close>

lemmas py_defs = str_startswith_def str_endswith_def str_contains_def str_index_def
  str_strip_def str_lstrip_def str_rstrip_def isspace_def str_replace_first_def
  slice_bound_def slice_def slice_to_def slice_from_def subscript_def getitem_def setitem_def
  quote_def dquote_def newline_def backslash_def

text \<open>
  A prefix is no longer than the string, and an occurrence of \<open>old\<close> cannot reach over a
  character that \<open>old\<close> does not contain: \<^verbatim>\<open>replace\<close> acts on both sides of such a
  character independently.
\<close>

lemma str_startswith_length:
  assumes "str_startswith s p"
  shows "length p \<le> length s"
proof -
  from assms have "length (take (length p) s) = length p"
    by (simp add: str_startswith_def)
  then show ?thesis by simp
qed

lemma str_startswith_sep:
  assumes "sp \<notin> set old"
  shows "str_startswith (a @ sp # b) old \<longleftrightarrow> str_startswith a old"
proof (cases "length old \<le> length a")
  case True
  then show ?thesis by (simp add: str_startswith_def)
next
  case False
  then have lt: "length a < length old" by simp
  have "take (length old) (a @ sp # b) \<noteq> old"
  proof
    assume eq: "take (length old) (a @ sp # b) = old"
    have "take (length old) (a @ sp # b) ! length a = sp"
      using lt by (simp add: nth_append)
    with eq have "old ! length a = sp" by simp
    moreover have "old ! length a \<in> set old" using lt by simp
    ultimately show False using assms by simp
  qed
  moreover have "take (length old) a \<noteq> old"
  proof
    assume "take (length old) a = old"
    then have "length (take (length old) a) = length old" by simp
    with lt show False by simp
  qed
  ultimately show ?thesis by (simp add: str_startswith_def)
qed

lemma str_replace_sep_aux:
  "sp \<notin> set old \<and> old \<noteq> [] \<longrightarrow>
   str_replace (a @ sp # b) old new = str_replace a old new @ sp # str_replace b old new"
proof (induction a old new rule: str_replace.induct)
  case (1 old new)
  show ?case
  proof
    assume h: "sp \<notin> set old \<and> old \<noteq> []"
    then have "\<not> str_startswith (sp # b) old"
      by (cases old) (auto simp: str_startswith_def)
    with h show "str_replace ([] @ sp # b) old new =
                 str_replace [] old new @ sp # str_replace b old new" by simp
  qed
next
  case (2 c cs old new)
  show ?case
  proof
    assume h: "sp \<notin> set old \<and> old \<noteq> []"
    then have sp: "sp \<notin> set old" and ne: "old \<noteq> []" by simp_all
    show "str_replace ((c # cs) @ sp # b) old new =
          str_replace (c # cs) old new @ sp # str_replace b old new"
    proof (cases "str_startswith (c # cs) old")
      case True
      then have sw: "str_startswith ((c # cs) @ sp # b) old"
        using str_startswith_sep[OF sp, of "c # cs" b] by simp
      from str_startswith_length[OF True]
      have len: "length old - 1 \<le> length cs" by simp
      have dr: "drop (length old - 1) (cs @ sp # b) = drop (length old - 1) cs @ sp # b"
        using len by simp
      from 2(2)[OF ne True] h sw True ne dr show ?thesis by simp
    next
      case False
      then have sw: "\<not> str_startswith ((c # cs) @ sp # b) old"
        using str_startswith_sep[OF sp, of "c # cs" b] by simp
      from 2(3)[OF ne False] h sw False ne show ?thesis by simp
    qed
  qed
qed

lemma str_replace_sep:
  assumes "sp \<notin> set old" "old \<noteq> []"
  shows "str_replace (a @ sp # b) old new = str_replace a old new @ sp # str_replace b old new"
  using str_replace_sep_aux[of sp old a b new] assms by simp

lemma str_replace_absent:
  assumes "old \<noteq> []"
  shows "\<not> str_contains old s \<Longrightarrow> str_replace s old new = s"
proof (induction s)
  case Nil
  then show ?case using assms by simp
next
  case (Cons c cs)
  from Cons.prems have ns: "\<not> str_startswith (c # cs) old" and nf: "\<not> str_contains old cs"
    by (auto simp: str_contains_def split: if_splits)
  from Cons.IH[OF nf] ns assms show ?case by simp
qed

text \<open>
  Searching for a single character.
\<close>

lemma str_find_char:
  "c \<notin> set pre \<Longrightarrow> str_find (pre @ c # rest) [c] = Some (length pre)"
  by (induction pre) (auto simp: str_startswith_def)

lemma str_contains_char: "str_contains [c] s \<longleftrightarrow> c \<in> set s"
  by (induction s) (auto simp: str_contains_def str_startswith_def)

lemma str_count_char_absent: "c \<notin> set s \<Longrightarrow> str_count s [c] = 0"
  by (induction s) (auto simp: str_startswith_def)

lemma str_replace_self: "s \<noteq> [] \<Longrightarrow> str_replace s s new = new"
  by (cases s) (simp_all add: str_startswith_def)

text \<open>
  Leading blanks in front of a line.
\<close>

lemma str_lstrip_pad: "str_lstrip (replicate n CHR '' '' @ s) = str_lstrip s"
  by (induction n) (simp_all add: str_lstrip_def isspace_def)

lemma str_strip_pad: "str_strip (replicate n CHR '' '' @ s) = str_strip s"
  by (simp add: str_strip_def str_lstrip_pad)

lemma find_all_pad:
  "find_all (replicate n CHR '' '' @ s) '':'' k = find_all s '':'' (k + n)"
  by (induction n arbitrary: k) (simp_all add: str_startswith_def)

lemma str_split_pad:
  "str_split (replicate n CHR '' '' @ s) '':'' =
     (replicate n CHR '' '' @ hd (str_split s '':'')) # tl (str_split s '':'')"
proof (induction n)
  case 0
  show ?case by (cases s) (auto split: list.splits)
next
  case (Suc n)
  then show ?case by (simp add: str_startswith_def)
qed

text \<open>
  The index \<^verbatim>\<open>find\<close> returns for a character holds that character, and a string that
  contains \<open>p @ q\<close> contains \<open>q\<close>.
\<close>

lemma str_find_char_Some:
  "str_find s [c] = Some i \<Longrightarrow> i < length s \<and> s ! i = c"
proof (induction s arbitrary: i)
  case Nil
  then show ?case by simp
next
  case (Cons x xs)
  show ?case
  proof (cases "x = c")
    case True
    with Cons.prems show ?thesis by (simp add: str_startswith_def)
  next
    case False
    with Cons.prems obtain j where j: "str_find xs [c] = Some j" "i = Suc j"
      by (auto simp: str_startswith_def)
    from Cons.IH[OF j(1)] j(2) show ?thesis by simp
  qed
qed

lemma str_contains_Cons: "str_contains q cs \<Longrightarrow> str_contains q (c # cs)"
  by (auto simp: str_contains_def)

lemma str_find_startswith: "str_startswith s q \<Longrightarrow> str_find s q = Some 0"
  by (cases s) (auto simp: str_startswith_def)

lemma str_contains_append: "str_contains q (a @ q @ b)"
proof (induction a)
  case Nil
  show ?case using str_find_startswith[of "q @ b" q]
    by (simp add: str_contains_def str_startswith_def)
next
  case (Cons x a)
  then show ?case using str_contains_Cons by simp
qed

lemma str_contains_suffix: "str_contains (p @ q) s \<Longrightarrow> str_contains q s"
proof (induction s)
  case Nil
  then show ?case by (auto simp: str_contains_def split: if_splits)
next
  case (Cons c cs)
  show ?case
  proof (cases "str_startswith (c # cs) (p @ q)")
    case True
    then have "c # cs = p @ q @ drop (length (p @ q)) (c # cs)"
      unfolding str_startswith_def by (metis append_assoc append_take_drop_id)
    then show ?thesis using str_contains_append[of q p] by metis
  next
    case False
    with Cons.prems have "str_contains (p @ q) cs"
      by (auto simp: str_contains_def)
    from str_contains_Cons[OF Cons.IH[OF this]] show ?thesis .
  qed
qed

text \<open>
  Occurrences that cannot overlap. When the first character of a block \<open>w\<close> does not occur
  in \<open>old\<close> after its first character, an occurrence of \<open>old\<close> that starts before the
  block ends before it; when the first character of \<open>old\<close> does not occur in \<open>w\<close>, no
  occurrence starts inside the block. So \<^verbatim>\<open>replace\<close> and \<^verbatim>\<open>in\<close> treat the text before and
  after the block independently, and an occurrence of \<open>old\<close> itself, whose first character
  does not recur in it, is replaced wherever it stands.
\<close>

lemma str_startswith_block:
  assumes "hd w \<notin> set (tl old)" "w \<noteq> []" "r \<noteq> []"
  shows "str_startswith (r @ w @ b) old \<longleftrightarrow> str_startswith r old"
proof (cases "length old \<le> length r")
  case True
  then show ?thesis by (simp add: str_startswith_def)
next
  case False
  then have lt: "length r < length old" by simp
  have pos: "0 < length r" using assms(3) by simp
  have "take (length old) (r @ w @ b) \<noteq> old"
  proof
    assume eq: "take (length old) (r @ w @ b) = old"
    have "take (length old) (r @ w @ b) ! length r = hd w"
      using lt assms(2) by (cases w) (simp_all add: nth_append)
    with eq have "old ! length r = hd w" by simp
    moreover have "old ! length r \<in> set (tl old)"
    proof (cases old)
      case Nil
      with lt show ?thesis by simp
    next
      case (Cons x xs)
      obtain k where k: "length r = Suc k" using pos by (cases r) auto
      with lt Cons have "k < length xs" "old ! length r = xs ! k" by simp_all
      with Cons show ?thesis by simp
    qed
    ultimately show False using assms(1) by simp
  qed
  moreover have "take (length old) r \<noteq> old"
  proof
    assume "take (length old) r = old"
    then have "length (take (length old) r) = length old" by simp
    with lt show False by simp
  qed
  ultimately show ?thesis by (simp add: str_startswith_def)
qed

lemma str_replace_pass:
  assumes "old \<noteq> []" "hd old \<notin> set u"
  shows "str_replace (u @ b) old new = u @ str_replace b old new"
  using assms(2)
proof (induction u)
  case Nil
  show ?case by simp
next
  case (Cons c u)
  then have "c \<noteq> hd old" by auto
  then have "\<not> str_startswith (c # u @ b) old"
    using assms(1) by (cases old) (auto simp: str_startswith_def)
  with Cons assms(1) show ?case by simp
qed

lemma str_replace_around_aux:
  "old \<noteq> [] \<and> w \<noteq> [] \<and> hd w \<notin> set (tl old) \<longrightarrow>
   str_replace (a @ w @ b) old new = str_replace a old new @ str_replace (w @ b) old new"
proof (induction a old new rule: str_replace.induct)
  case (1 old new)
  show ?case by simp
next
  case (2 c cs old new)
  show ?case
  proof
    assume h: "old \<noteq> [] \<and> w \<noteq> [] \<and> hd w \<notin> set (tl old)"
    then have ne: "old \<noteq> []" and w: "w \<noteq> []" and hw: "hd w \<notin> set (tl old)" by simp_all
    have sw: "str_startswith ((c # cs) @ w @ b) old \<longleftrightarrow> str_startswith (c # cs) old"
      by (rule str_startswith_block[OF hw w]) simp
    show "str_replace ((c # cs) @ w @ b) old new =
          str_replace (c # cs) old new @ str_replace (w @ b) old new"
    proof (cases "str_startswith (c # cs) old")
      case True
      from str_startswith_length[OF True]
      have len: "length old - 1 \<le> length cs" by simp
      have dr: "drop (length old - 1) (cs @ w @ b) = drop (length old - 1) cs @ w @ b"
        using len by simp
      from 2(2)[OF ne True] h sw True ne dr show ?thesis by simp
    next
      case False
      from 2(3)[OF ne False] h sw False ne show ?thesis by simp
    qed
  qed
qed

lemma str_replace_block:
  assumes "old \<noteq> []" "w \<noteq> []" "hd w \<notin> set (tl old)" "hd old \<notin> set w"
  shows "str_replace (a @ w @ b) old new = str_replace a old new @ w @ str_replace b old new"
  using str_replace_around_aux[of old w a b new] str_replace_pass[OF assms(1,4), of b new] assms
  by simp

lemma str_replace_occurrence:
  assumes "old \<noteq> []" "hd old \<notin> set (tl old)"
  shows "str_replace (a @ old @ b) old new = str_replace a old new @ new @ str_replace b old new"
proof -
  obtain c os where old: "old = c # os" using assms(1) by (cases old) auto
  have "str_startswith (old @ b) old" by (simp add: str_startswith_def)
  then have "str_replace (old @ b) old new = new @ str_replace b old new"
    by (simp add: old)
  with str_replace_around_aux[of old old a b new] assms show ?thesis by simp
qed

lemma str_contains_pass:
  assumes "old \<noteq> []" "hd old \<notin> set u"
  shows "str_contains old (u @ y) \<longleftrightarrow> str_contains old y"
  using assms(2)
proof (induction u)
  case Nil
  show ?case by simp
next
  case (Cons c u)
  then have "c \<noteq> hd old" by auto
  then have "\<not> str_startswith (c # u @ y) old"
    using assms(1) by (cases old) (auto simp: str_startswith_def)
  with Cons show ?case by (simp add: str_contains_def)
qed

lemma str_contains_block:
  assumes "old \<noteq> []" "w \<noteq> []" "hd w \<notin> set (tl old)" "hd old \<notin> set w"
  shows "str_contains old (x @ w @ y) \<longleftrightarrow> str_contains old x \<or> str_contains old y"
proof (induction x)
  case Nil
  have "\<not> str_contains old []" using assms(1) by (simp add: str_contains_def)
  with str_contains_pass[OF assms(1,4), of y] show ?case by simp
next
  case (Cons c cs)
  have sw: "str_startswith ((c # cs) @ w @ y) old \<longleftrightarrow> str_startswith (c # cs) old"
    by (rule str_startswith_block[OF assms(3,2)]) simp
  have "str_contains old ((c # cs) @ w @ y) \<longleftrightarrow>
        str_startswith (c # cs) old \<or> str_contains old (cs @ w @ y)"
    using sw by (simp add: str_contains_def)
  also have "\<dots> \<longleftrightarrow> str_startswith (c # cs) old \<or> str_contains old cs \<or> str_contains old y"
    using Cons.IH by simp
  also have "\<dots> \<longleftrightarrow> str_contains old (c # cs) \<or> str_contains old y"
    by (simp add: str_contains_def)
  finally show ?case .
qed

lemma str_find_split:
  "str_find s old = Some i \<Longrightarrow> s = take i s @ old @ drop (i + length old) s"
proof (induction s arbitrary: i)
  case Nil
  then show ?case by (simp split: if_splits)
next
  case (Cons c cs)
  show ?case
  proof (cases "str_startswith (c # cs) old")
    case True
    with Cons.prems have "i = 0" by simp
    moreover from True have "c # cs = old @ drop (length old) (c # cs)"
      unfolding str_startswith_def by (metis append_take_drop_id)
    ultimately show ?thesis by simp
  next
    case False
    with Cons.prems obtain j where j: "str_find cs old = Some j" "i = Suc j" by auto
    from Cons.IH[OF j(1)] j(2) show ?thesis by simp
  qed
qed

lemma str_contains_split:
  assumes "str_contains old s"
  shows "\<exists>a b. s = a @ old @ b"
proof -
  from assms obtain i where "str_find s old = Some i" by (auto simp: str_contains_def)
  from str_find_split[OF this] show ?thesis by blast
qed

section \<open>The literals true, false and null\<close>

lemma replace_literals_sep:
  "replace_literals (a @ CHR '' '' # b) = replace_literals a @ CHR '' '' # replace_literals b"
  by (simp add: replace_literals_def str_replace_sep)

lemma replace_literals_join:
  "replace_literals (str_join '' '' tokens) = str_join '' '' (map replace_literals tokens)"
proof (induction tokens rule: induct_list012)
  case 1
  show ?case by (simp add: replace_literals_def)
next
  case (2 x)
  show ?case by simp
next
  case (3 x y zs)
  then show ?case by (simp add: replace_literals_sep)
qed

text \<open>
  An occurrence of a literal is replaced whatever stands before and after it, and the
  text on both sides is treated the same way.
\<close>

lemma replace_literals_true:
  "replace_literals (a @ ''true'' @ b) = replace_literals a @ ''True'' @ replace_literals b"
proof -
  have 1: "str_replace (a @ ''true'' @ b) ''true'' ''True'' =
           str_replace a ''true'' ''True'' @ ''True'' @ str_replace b ''true'' ''True''"
    by (rule str_replace_occurrence) simp_all
  have 2: "str_replace (x @ ''True'' @ y) ''false'' ''False'' =
           str_replace x ''false'' ''False'' @ ''True'' @ str_replace y ''false'' ''False''" for x y
    by (rule str_replace_block) simp_all
  have 3: "str_replace (x @ ''True'' @ y) ''null'' ''{}'' =
           str_replace x ''null'' ''{}'' @ ''True'' @ str_replace y ''null'' ''{}''" for x y
    by (rule str_replace_block) simp_all
  show ?thesis unfolding replace_literals_def 1 2 3 ..
qed

lemma replace_literals_false:
  "replace_literals (a @ ''false'' @ b) = replace_literals a @ ''False'' @ replace_literals b"
proof -
  have 1: "str_replace (a @ ''false'' @ b) ''true'' ''True'' =
           str_replace a ''true'' ''True'' @ ''false'' @ str_replace b ''true'' ''True''"
    by (rule str_replace_block) simp_all
  have 2: "str_replace (x @ ''false'' @ y) ''false'' ''False'' =
           str_replace x ''false'' ''False'' @ ''False'' @ str_replace y ''false'' ''False''" for x y
    by (rule str_replace_occurrence) simp_all
  have 3: "str_replace (x @ ''False'' @ y) ''null'' ''{}'' =
           str_replace x ''null'' ''{}'' @ ''False'' @ str_replace y ''null'' ''{}''" for x y
    by (rule str_replace_block) simp_all
  show ?thesis unfolding replace_literals_def 1 2 3 ..
qed

lemma replace_literals_null:
  "replace_literals (a @ ''null'' @ b) = replace_literals a @ ''{}'' @ replace_literals b"
proof -
  have 1: "str_replace (a @ ''null'' @ b) ''true'' ''True'' =
           str_replace a ''true'' ''True'' @ ''null'' @ str_replace b ''true'' ''True''"
    by (rule str_replace_block) simp_all
  have 2: "str_replace (x @ ''null'' @ y) ''false'' ''False'' =
           str_replace x ''false'' ''False'' @ ''null'' @ str_replace y ''false'' ''False''" for x y
    by (rule str_replace_block) simp_all
  have 3: "str_replace (x @ ''null'' @ y) ''null'' ''{}'' =
           str_replace x ''null'' ''{}'' @ ''{}'' @ str_replace y ''null'' ''{}''" for x y
    by (rule str_replace_occurrence) simp_all
  show ?thesis unfolding replace_literals_def 1 2 3 ..
qed

text \<open>
  No literal is left in the result, and none is created by the replacements.
\<close>

lemma literal_free_block:
  assumes "w = ''True'' \<or> w = ''False'' \<or> w = ''{}''"
    and "\<not> str_contains ''true'' x \<and> \<not> str_contains ''false'' x \<and> \<not> str_contains ''null'' x"
    and "\<not> str_contains ''true'' y \<and> \<not> str_contains ''false'' y \<and> \<not> str_contains ''null'' y"
  shows "\<not> str_contains ''true'' (x @ w @ y) \<and> \<not> str_contains ''false'' (x @ w @ y) \<and>
         \<not> str_contains ''null'' (x @ w @ y)"
proof -
  have "str_contains ''true'' (x @ w @ y) \<longleftrightarrow> str_contains ''true'' x \<or> str_contains ''true'' y"
    using assms(1) by (intro str_contains_block) auto
  moreover
  have "str_contains ''false'' (x @ w @ y) \<longleftrightarrow> str_contains ''false'' x \<or> str_contains ''false'' y"
    using assms(1) by (intro str_contains_block) auto
  moreover
  have "str_contains ''null'' (x @ w @ y) \<longleftrightarrow> str_contains ''null'' x \<or> str_contains ''null'' y"
    using assms(1) by (intro str_contains_block) auto
  ultimately show ?thesis using assms(2,3) by simp
qed

lemma replace_literals_free:
  "\<not> str_contains ''true'' (replace_literals s) \<and> \<not> str_contains ''false'' (replace_literals s) \<and>
   \<not> str_contains ''null'' (replace_literals s)"
proof (induction "length s" arbitrary: s rule: less_induct)
  case less
  consider (none) "\<not> str_contains ''true'' s \<and> \<not> str_contains ''false'' s \<and>
                   \<not> str_contains ''null'' s"
    | (t) "str_contains ''true'' s" | (f) "str_contains ''false'' s"
    | (n) "str_contains ''null'' s"
    by blast
  then show ?case
  proof cases
    case none
    then have "replace_literals s = s"
      by (simp add: replace_literals_def str_replace_absent)
    with none show ?thesis by simp
  next
    case t
    from str_contains_split[OF t] obtain a b where s: "s = a @ ''true'' @ b" by blast
    have la: "length a < length s" and lb: "length b < length s" by (simp_all add: s)
    have w: "''True'' = ''True'' \<or> ''True'' = ''False'' \<or> ''True'' = ''{}''" by simp
    show ?thesis
      unfolding s replace_literals_true
      using w less[OF la] less[OF lb] by (rule literal_free_block)
  next
    case f
    from str_contains_split[OF f] obtain a b where s: "s = a @ ''false'' @ b" by blast
    have la: "length a < length s" and lb: "length b < length s" by (simp_all add: s)
    have w: "''False'' = ''True'' \<or> ''False'' = ''False'' \<or> ''False'' = ''{}''" by simp
    show ?thesis
      unfolding s replace_literals_false
      using w less[OF la] less[OF lb] by (rule literal_free_block)
  next
    case n
    from str_contains_split[OF n] obtain a b where s: "s = a @ ''null'' @ b" by blast
    have la: "length a < length s" and lb: "length b < length s" by (simp_all add: s)
    have w: "''{}'' = ''True'' \<or> ''{}'' = ''False'' \<or> ''{}'' = ''{}''" by simp
    show ?thesis
      unfolding s replace_literals_null
      using w less[OF la] less[OF lb] by (rule literal_free_block)
  qed
qed

text \<open>
  Claim C9, as amended. The three substitutions replace substrings, not tokens. Every
  occurrence of \<^verbatim>\<open>true\<close>, \<^verbatim>\<open>false\<close> or \<^verbatim>\<open>null\<close> in the line, a token of its own or a part of
  a longer token, is replaced by \<^verbatim>\<open>True\<close>, \<^verbatim>\<open>False\<close> or \<^verbatim>\<open>{}\<close>, and the text before and after
  the occurrence is treated the same way; the result holds none of the three substrings;
  text in which none of the three occurs is not altered. On a line of tokens separated by
  single blanks the substitutions act on each token by itself.
\<close>

theorem replace_literals_occurrences:
  "replace_literals (a @ ''true'' @ b) = replace_literals a @ ''True'' @ replace_literals b \<and>
   replace_literals (a @ ''false'' @ b) = replace_literals a @ ''False'' @ replace_literals b \<and>
   replace_literals (a @ ''null'' @ b) = replace_literals a @ ''{}'' @ replace_literals b \<and>
   \<not> str_contains ''true'' (replace_literals s) \<and>
   \<not> str_contains ''false'' (replace_literals s) \<and>
   \<not> str_contains ''null'' (replace_literals s) \<and>
   (\<not> str_contains ''true'' s \<and> \<not> str_contains ''false'' s \<and> \<not> str_contains ''null'' s \<longrightarrow>
      replace_literals s = s) \<and>
   replace_literals ''true'' = ''True'' \<and>
   replace_literals ''false'' = ''False'' \<and>
   replace_literals ''null'' = ''{}'' \<and>
   replace_literals (str_join '' '' tokens) = str_join '' '' (map replace_literals tokens)"
proof -
  have absent: "\<not> str_contains ''true'' s \<and> \<not> str_contains ''false'' s \<and>
      \<not> str_contains ''null'' s \<longrightarrow> replace_literals s = s"
    by (simp add: replace_literals_def str_replace_absent)
  have bare: "replace_literals ''true'' = ''True''" "replace_literals ''false'' = ''False''"
    "replace_literals ''null'' = ''{}''"
    by (simp_all add: replace_literals_def str_startswith_def)
  from replace_literals_true[of a b] replace_literals_false[of a b] replace_literals_null[of a b]
    replace_literals_free[of s] absent bare replace_literals_join[of tokens]
  show ?thesis by blast
qed

theorem replace_literals_occurrences_witness:
  "\<not> str_contains ''true'' ''able'' \<and> \<not> str_contains ''false'' ''able'' \<and>
   \<not> str_contains ''null'' ''able'' \<and>
   replace_literals ''able'' = ''able'' \<and>
   replace_literals (''x = '' @ ''null'' @ ''able'') = ''x = '' @ ''{}'' @ ''able'' \<and>
   replace_literals (''f('' @ ''true'' @ '')'') = ''f('' @ ''True'' @ '')''"
proof -
  have h: "\<not> str_contains ''true'' ''able'' \<and> \<not> str_contains ''false'' ''able'' \<and>
           \<not> str_contains ''null'' ''able''"
    by code_simp
  have e: "replace_literals ''x = '' = ''x = ''" "replace_literals ''f('' = ''f(''"
    "replace_literals '')'' = '')''"
    by code_simp+
  from replace_literals_occurrences[of "''x = ''" "''able''" "''able''" "[]"]
    replace_literals_occurrences[of "''f(''" "'')''" "''able''" "[]"] h e
  show ?thesis by simp
qed

text \<open>
  The claim as stated fails on a token that contains a literal: \<^verbatim>\<open>nullable\<close> is altered.
\<close>

theorem replace_literals_counterexample:
  "replace_literals ''x = nullable'' = ''x = {}able''"
  by (simp add: replace_literals_def str_startswith_def)

section \<open>Properties of convert\_for\_loop\<close>

text \<open>
  Claim C4, as amended. On a membership-style header (the text between the first pair of
  parentheses contains \<^verbatim>\<open> in \<close> and no semicolon) the function removes the declaration
  keyword and the two parentheses, keeps the text between them verbatim followed by a
  colon, and preserves the text before and after the parenthesised span. For
  \<^verbatim>\<open>for (var f in list) {\<close> the result is \<^verbatim>\<open>for f in list: {\<close>.
\<close>

theorem convert_for_loop_membership:
  assumes line: "str_replace line ''var '' [] = prefix @ ''('' @ params @ '')'' @ suffix"
    and prefix: "CHR ''('' \<notin> set prefix" "CHR '')'' \<notin> set prefix"
    and params: "CHR '')'' \<notin> set params" "CHR '';'' \<notin> set params"
    and member: "str_contains '' in '' params"
  shows "convert_for_loop line = Inr (prefix @ params @ '':'' @ suffix)"
proof -
  define l where "l = prefix @ ''('' @ params @ '')'' @ suffix"
  have l: "(if str_contains ''var '' line then str_replace line ''var '' [] else line) = l"
    using line str_replace_absent[of "''var ''" line "[]"] by (auto simp: l_def)
  have "str_find l ''('' = Some (length prefix)"
    unfolding l_def using str_find_char[OF prefix(1)] by simp
  then have start: "str_index l ''('' = Inr (length prefix)" by (simp add: str_index_def)
  have "CHR '')'' \<notin> set (prefix @ ''('' @ params)" using prefix(2) params(1) by simp
  from str_find_char[OF this, of suffix]
  have "str_find l '')'' = Some (length prefix + 1 + length params)" by (simp add: l_def)
  then have stop: "str_index l '')'' = Inr (length prefix + 1 + length params)"
    by (simp add: str_index_def)
  have p1: "take (length prefix) l = prefix" by (simp add: l_def)
  have p2: "drop (length prefix + 1 + length params + 1) l = suffix" by (simp add: l_def)
  have p3: "drop (length prefix + 1) (take (length prefix + 1 + length params) l) = params"
    by (simp add: l_def)
  have cnt: "str_count params '';'' = 0" using str_count_char_absent[OF params(2)] by simp
  show ?thesis
    unfolding convert_for_loop_def l Let_def start stop
    using p1 p2 p3 cnt member by simp
qed

theorem convert_for_loop_membership_witness:
  "str_replace ''for (var f in list) {'' ''var '' [] = ''for '' @ ''('' @ ''f in list'' @ '')'' @ '' {'' \<and>
   str_contains '' in '' ''f in list'' \<and>
   convert_for_loop ''for (var f in list) {'' = Inr ''for f in list: {''"
proof -
  have h1: "str_replace ''for (var f in list) {'' ''var '' [] =
            ''for '' @ ''('' @ ''f in list'' @ '')'' @ '' {''" by code_simp
  have h2: "CHR ''('' \<notin> set ''for ''" by simp
  have h3: "CHR '')'' \<notin> set ''for ''" by simp
  have h4: "CHR '')'' \<notin> set ''f in list''" by simp
  have h5: "CHR '';'' \<notin> set ''f in list''" by simp
  have h6: "str_contains '' in '' ''f in list''" by code_simp
  from convert_for_loop_membership[OF h1 h2 h3 h4 h5 h6] h1 h6 show ?thesis by simp
qed

text \<open>
  The claim as stated fails: the parentheses of the header are not preserved.
\<close>

theorem convert_for_loop_membership_counterexample:
  "convert_for_loop ''for (var f in list) {'' \<noteq> Inr ''for (f in list): {'' \<and>
   convert_for_loop ''for (var f in list) {'' = Inr ''for f in list: {''"
  by code_simp

text \<open>
  The clauses of the counting-loop header \<^verbatim>\<open>i = 0; i < 10; i++\<close>.
\<close>

lemma counting_params:
  "\<not> str_contains '' in '' ''i = 0; i < 10; i++''"
  "getitem (str_split ''i = 0; i < 10; i++'' ''='') 0 = Inr ''i ''"
  "str_strip ''i '' = ''i''"
  "map_result (\<lambda>item. getitem (str_split item '' '') (- 1))
     (str_split ''i = 0; i < 10; i++'' '';'') = Inr [''0'', ''10'', ''i++'']"
  "getitem [''0'', ''10'', ''i++''] 0 = Inr ''0''"
  "getitem [''0'', ''10'', ''i++''] 1 = Inr ''10''"
  "getitem [''0'', ''10'', ''i++''] 2 = Inr ''i++''"
  "str_contains ''++'' ''i++''"
  by code_simp+

text \<open>
  Claim C5. On the counting-loop header \<^verbatim>\<open>for (var i = 0; i < 10; i++) {\<close> the function
  yields \<^verbatim>\<open>i in range(0, 10, 1):\<close> in place of the parenthesised span, between the prefix
  \<^verbatim>\<open>for \<close> and the suffix \<^verbatim>\<open> {\<close>, both preserved. The same holds for any text before and
  after the parenthesised span, as long as no parenthesis precedes the span.
\<close>

theorem convert_for_loop_counting:
  "convert_for_loop ''for (var i = 0; i < 10; i++) {'' =
     Inr (''for '' @ ''i in range(0, 10, 1):'' @ '' {'') \<and>
   (str_replace line ''var '' [] = prefix @ ''(i = 0; i < 10; i++)'' @ suffix \<and>
    CHR ''('' \<notin> set prefix \<and> CHR '')'' \<notin> set prefix \<longrightarrow>
    convert_for_loop line = Inr (prefix @ ''i in range(0, 10, 1):'' @ suffix))"
proof (rule conjI)
  show "convert_for_loop ''for (var i = 0; i < 10; i++) {'' =
     Inr (''for '' @ ''i in range(0, 10, 1):'' @ '' {'')"
    by code_simp
next
  show "str_replace line ''var '' [] = prefix @ ''(i = 0; i < 10; i++)'' @ suffix \<and>
    CHR ''('' \<notin> set prefix \<and> CHR '')'' \<notin> set prefix \<longrightarrow>
    convert_for_loop line = Inr (prefix @ ''i in range(0, 10, 1):'' @ suffix)"
  proof
    assume h: "str_replace line ''var '' [] = prefix @ ''(i = 0; i < 10; i++)'' @ suffix \<and>
      CHR ''('' \<notin> set prefix \<and> CHR '')'' \<notin> set prefix"
    define params where "params = ''i = 0; i < 10; i++''"
    define l where "l = prefix @ ''('' @ params @ '')'' @ suffix"
    have l: "(if str_contains ''var '' line then str_replace line ''var '' [] else line) = l"
      using h str_replace_absent[of "''var ''" line "[]"] by (auto simp: l_def params_def)
    have "str_find l ''('' = Some (length prefix)"
      unfolding l_def using h str_find_char[of "CHR ''(''" prefix] by simp
    then have start: "str_index l ''('' = Inr (length prefix)" by (simp add: str_index_def)
    have "CHR '')'' \<notin> set (prefix @ ''('' @ params)" using h by (simp add: params_def)
    from str_find_char[OF this, of suffix]
    have "str_find l '')'' = Some (length prefix + 1 + length params)" by (simp add: l_def)
    then have stop: "str_index l '')'' = Inr (length prefix + 1 + length params)"
      by (simp add: str_index_def)
    have p1: "take (length prefix) l = prefix" by (simp add: l_def)
    have p2: "drop (length prefix + 1 + length params + 1) l = suffix" by (simp add: l_def)
    have p3: "drop (length prefix + 1) (take (length prefix + 1 + length params) l) = params"
      by (simp add: l_def)
    show "convert_for_loop line = Inr (prefix @ ''i in range(0, 10, 1):'' @ suffix)"
      unfolding convert_for_loop_def l Let_def start stop
      using p1 p2 p3 counting_params[folded params_def] by (simp add: params_def)
  qed
qed

theorem convert_for_loop_counting_witness:
  "str_replace ''for (var i = 0; i < 10; i++) {'' ''var '' [] =
     ''for '' @ ''(i = 0; i < 10; i++)'' @ '' {'' \<and>
   convert_for_loop ''for (var i = 0; i < 10; i++) {'' = Inr ''for i in range(0, 10, 1): {''"
proof -
  have h: "str_replace ''for (var i = 0; i < 10; i++) {'' ''var '' [] =
     ''for '' @ ''(i = 0; i < 10; i++)'' @ '' {''" by code_simp
  from convert_for_loop_counting[of "''for (var i = 0; i < 10; i++) {''" "''for ''" "'' {''"] h
  show ?thesis by simp
qed

section \<open>Properties of format\_params\<close>

lemma unquoted_pad: "unquoted (replicate n CHR '' '' @ ''min'')"
  unfolding unquoted_def dquote_def quote_def str_contains_char by simp

lemma quote_many_pad:
  "quote_many 0 [replicate n CHR '' '' @ ''min'', '' 0, max'', '' 10''] =
     Inr [replicate n CHR '' '' @ quote @ ''min'' @ quote, '' 0, max'', '' 10'']"
proof -
  have c: "\<not> str_contains '','' (replicate n CHR '' '' @ ''min'')"
    unfolding str_contains_char by simp
  have s: "str_strip (replicate n CHR '' '' @ ''min'') = ''min''"
    unfolding str_strip_pad by code_simp
  have r: "str_replace (replicate n CHR '' '' @ ''min'') (replicate n CHR '' '' @ ''min'') new = new"
    for new by (rule str_replace_self) simp
  show ?thesis
    unfolding quote_many_def Let_def
    using c s r unquoted_pad[of n] by (simp add: getitem_def subscript_def)
qed

lemma quote_many_second:
  "quote_many 1 [first, '' 0, max'', '' 10''] =
     Inr [first, '' 0, '' @ quote @ ''max'' @ quote, '' 10'']"
proof -
  have g: "getitem [first, '' 0, max'', '' 10''] (int 1) = Inr '' 0, max''"
    by (simp add: getitem_def subscript_def)
  have c: "str_contains '','' '' 0, max''" by code_simp
  have sp: "str_split '' 0, max'' '','' = ['' 0'', '' max'']" by code_simp
  have gs: "getitem ['' 0'', '' max''] (- 1) = Inr '' max''" by code_simp
  have u: "unquoted '' max''" by code_simp
  have st: "str_strip '' max'' = ''max''" by code_simp
  have r: "str_replace '' max'' '' max'' new = new" for new
    by (rule str_replace_self) simp
  have si: "setitem ['' 0'', '' max''] (- 1) v = Inr ['' 0'', v]" for v :: string
    by (simp add: setitem_def subscript_def)
  show ?thesis
    unfolding quote_many_def Let_def g
    using c sp gs u st r si by simp
qed

text \<open>
  Claim C8. The line \<^verbatim>\<open>min: 0, max: 10\<close> becomes \<^verbatim>\<open>'min': 0, 'max': 10\<close>: the token before
  each colon is quoted, the one before the second colon being the last element of the
  comma-separated list \<^verbatim>\<open> 0, max\<close>. Blanks in front of the line are preserved.
\<close>

theorem format_params_example:
  "format_params ''min: 0, max: 10'' =
     Inr (quote @ ''min'' @ quote @ '': 0, '' @ quote @ ''max'' @ quote @ '': 10'') \<and>
   format_params (replicate n CHR '' '' @ ''min: 0, max: 10'') =
     Inr (replicate n CHR '' '' @
          quote @ ''min'' @ quote @ '': 0, '' @ quote @ ''max'' @ quote @ '': 10'')"
proof
  show "format_params ''min: 0, max: 10'' =
     Inr (quote @ ''min'' @ quote @ '': 0, '' @ quote @ ''max'' @ quote @ '': 10'')"
    by code_simp
next
  let ?line = "replicate n CHR '' '' @ ''min: 0, max: 10''"
  have nofor: "\<not> str_startswith (str_strip ?line) ''for''"
    unfolding str_strip_pad by code_simp
  have ind: "find_all ?line sep 0 = [n + 3, n + 11]"
    unfolding sep_def find_all_pad by (simp add: str_startswith_def)
  have nobrace: "\<not> str_contains ''{'' ?line"
    unfolding str_contains_char by simp
  have sp: "str_split ''min: 0, max: 10'' '':'' = [''min'', '' 0, max'', '' 10'']"
    by code_simp
  have items: "str_split ?line sep = [replicate n CHR '' '' @ ''min'', '' 0, max'', '' 10'']"
    unfolding sep_def str_split_pad sp by simp
  show "format_params ?line =
     Inr (replicate n CHR '' '' @
          quote @ ''min'' @ quote @ '': 0, '' @ quote @ ''max'' @ quote @ '': 10'')"
    unfolding format_params_def Let_def
    using nofor ind nobrace items quote_many_pad[of n] quote_many_second by (simp add: upt_rec)
qed

section \<open>Properties of check\_map\_functions\<close>

text \<open>
  One iteration keeps the length of \<^verbatim>\<open>input_lines\<close>; it appends one line to
  \<^verbatim>\<open>output_lines\<close>, or at least five when it hoists a function.
\<close>

lemma length_blank_lines: "length (blank_lines ls start n) = length ls"
proof -
  have "length (fold (\<lambda>sub_index l. l[start + sub_index := []]) is ls) = length ls" for "is"
    by (induction "is" arbitrary: ls) simp_all
  then show ?thesis by (simp add: blank_lines_def)
qed

lemma setitem_length: "setitem xs i v = Inr ys \<Longrightarrow> length ys = length xs"
  by (auto simp: setitem_def split: sum.splits)

lemma hoist_line_plain:
  "\<not> is_map_function (input_lines st ! i) \<Longrightarrow>
   hoist_line rs i st = Inr (st\<lparr>output_lines := output_lines st @ [input_lines st ! i]\<rparr>)"
  by (simp add: hoist_line_def)

lemma hoist_line_step:
  assumes "hoist_line rs i st = Inr st'"
  shows "length (input_lines st') = length (input_lines st) \<and>
     ((random_calls st' = random_calls st \<and>
       length (output_lines st') = Suc (length (output_lines st))) \<or>
      (random_calls st' = Suc (random_calls st) \<and>
       length (output_lines st) + 5 \<le> length (output_lines st')))"
proof (cases "is_map_function (input_lines st ! i)")
  case False
  with assms hoist_line_plain[OF False, of rs] show ?thesis by auto
next
  case True
  with assms show ?thesis
    unfolding hoist_line_def Let_def
    by (auto split: sum.splits prod.splits dest!: setitem_length simp: length_blank_lines)
qed

lemma hoist_loop:
  "for_each (hoist_line rs) is st = Inr st' \<Longrightarrow>
   length (input_lines st') = length (input_lines st) \<and>
   random_calls st \<le> random_calls st' \<and>
   length (output_lines st) + length is + 4 * (random_calls st' - random_calls st)
     \<le> length (output_lines st') \<and>
   (random_calls st' = random_calls st \<longrightarrow>
      length (output_lines st') = length (output_lines st) + length is)"
proof (induction "is" arbitrary: st)
  case Nil
  then show ?case by simp
next
  case (Cons i "is")
  from Cons.prems obtain st1 where s1: "hoist_line rs i st = Inr st1"
    and rest: "for_each (hoist_line rs) is st1 = Inr st'"
    by (auto split: sum.splits)
  from hoist_line_step[OF s1] Cons.IH[OF rest] show ?case by auto
qed

lemma hoist_loop_plain:
  "\<forall>i \<in> set is. \<not> is_map_function (input_lines st ! i) \<Longrightarrow>
   for_each (hoist_line rs) is st =
     Inr (st\<lparr>output_lines := output_lines st @ map ((!) (input_lines st)) is\<rparr>)"
proof (induction "is" arbitrary: st)
  case Nil
  then show ?case by simp
next
  case (Cons i "is")
  from Cons.prems have h: "\<not> is_map_function (input_lines st ! i)" by simp
  let ?st1 = "st\<lparr>output_lines := output_lines st @ [input_lines st ! i]\<rparr>"
  have "\<forall>j \<in> set is. \<not> is_map_function (input_lines ?st1 ! j)" using Cons.prems by simp
  from Cons.IH[OF this] hoist_line_plain[OF h, of rs] show ?case by simp
qed

text \<open>
  An iteration raises only when the line holds the marker of a callback and no opening
  brace, and then it is the ValueError of \<^verbatim>\<open>line.index("{")\<close>: the bracket matcher starts on
  the brace and cannot raise, and the subscripts are in range.
\<close>

lemma is_map_function_function:
  assumes "is_map_function line"
  shows "\<exists>i. str_index line ''function'' = Inr i"
proof -
  have "str_contains ''function'' line"
    using assms str_contains_suffix[of "''.map(''" "''function''" line]
      str_contains_suffix[of "''.map (''" "''function''" line]
    by (auto simp: is_map_function_def)
  then show ?thesis by (auto simp: str_contains_def str_index_def)
qed

lemma getitem_match:
  assumes "xs \<noteq> []" "i = - 1 \<or> (\<exists>n. i = int n \<and> n < length xs)"
  shows "\<exists>j. subscript xs i = Inr j \<and> j < length xs"
  using assms by (cases xs) (auto simp: subscript_def)

lemma hoist_line_raises:
  assumes "hoist_line rs i st = Inl e" "i < length (input_lines st)"
  shows "e = ValueError \<and> is_map_function (input_lines st ! i) \<and>
         \<not> str_contains ''{'' (input_lines st ! i)"
proof -
  let ?line = "input_lines st ! i"
  have m: "is_map_function ?line"
    using assms(1) by (auto simp: hoist_line_def Let_def split: if_splits)
  show ?thesis
  proof (cases "str_find ?line ''{''")
    case None
    with assms(1) m show ?thesis
      by (simp add: hoist_line_def Let_def str_index_def str_contains_def)
  next
    case (Some b)
    from str_find_char_Some[OF Some] have b: "b < length ?line" "?line ! b = CHR ''{''" by auto
    have mc: "matching_chars CHR ''{'' = Some CHR ''}''" by (simp add: matching_chars_def)
    from is_map_function_function[OF m] obtain f where f: "str_index ?line ''function'' = Inr f"
      by blast
    from find_matching_bracket_core[OF mc assms(2) b]
    obtain ml mch where r: "find_matching_bracket (input_lines st) i b CHR ''{'' = Inr (ml, mch)"
      and ml: "ml = - 1 \<or> (\<exists>n. ml = int n \<and> n < length (input_lines st))"
      by auto
    let ?body = "slice (input_lines st) (int i + 1) ml"
    let ?lines1 = "blank_lines (input_lines st) (i + 1) (length ?body)"
    have len: "length ?lines1 = length (input_lines st)"
      by (simp add: length_blank_lines)
    have ne: "?lines1 \<noteq> []" using len assms(2) by auto
    from getitem_match[OF ne] ml len obtain j where j: "subscript ?lines1 ml = Inr j" by metis
    from assms(1) m Some f r j have False
      by (simp add: hoist_line_def Let_def str_index_def getitem_def setitem_def)
    then show ?thesis ..
  qed
qed

lemma hoist_loop_raises:
  "for_each (hoist_line rs) is st = Inl e \<Longrightarrow> \<forall>i \<in> set is. i < length (input_lines st) \<Longrightarrow>
   e = ValueError"
proof (induction "is" arbitrary: st)
  case Nil
  then show ?case by simp
next
  case (Cons i "is")
  show ?case
  proof (cases "hoist_line rs i st")
    case (Inl e')
    with Cons.prems hoist_line_raises[OF Inl] show ?thesis by simp
  next
    case (Inr st1)
    from hoist_line_step[OF Inr] Cons.prems(2)
    have "\<forall>j \<in> set is. j < length (input_lines st1)" by simp
    moreover from Cons.prems(1) Inr have "for_each (hoist_line rs) is st1 = Inl e" by simp
    ultimately show ?thesis using Cons.IH by blast
  qed
qed

text \<open>
  Examples: a callback over several lines, and a callback whose body holds another
  callback, which stays in the output as it is.
\<close>

lemma hoist_multi_line:
  "check_map_functions sample_names 0
     [''var x = col.map(function(f) {'', ''  return f.val();'', ''});'', ''print(x);''] =
   Inr \<lparr>input_lines = [''var x = col.map(function(f) {'', [], [], ''print(x);''],
        output_lines = [newline, ''function func_abc(f) {'', ''  return f.val();'', ''}'',
                        ''var x = col.map(func_abc);'', [], [], [], ''print(x);''],
        random_calls = 1\<rparr>"
  by code_simp

lemma hoist_nested:
  "map_sum id output_lines (check_map_functions sample_names 0
     [''a.map(function(x) {'', ''  return x.map(function(y) {'', ''    return y;'',
      ''  });'', ''});'']) =
   Inr [newline, ''function func_abc(x) {'', ''  return x.map(function(y) {'',
        ''    return y;'', ''  });'', ''}'', ''a.map(func_abc);'', [], [], [], [], []]"
  by code_simp

text \<open>
  Claim C1, as amended. The list the function returns is not of the length of its input:
  it holds at least four entries more for each hoisted function, and is of the same
  length when nothing is hoisted. The input list, blanked in place, keeps its length.
  The function does not always return: it can raise, and then it raises ValueError.
\<close>

theorem check_map_functions_length:
  "(check_map_functions random_string calls input = Inr st \<longrightarrow>
      length (input_lines st) = length input \<and>
      length input + 4 * (random_calls st - calls) \<le> length (output_lines st) \<and>
      (random_calls st = calls \<longrightarrow> length (output_lines st) = length input)) \<and>
   (check_map_functions random_string calls input = Inl e \<longrightarrow> e = ValueError)"
proof (rule conjI)
  show "check_map_functions random_string calls input = Inr st \<longrightarrow>
      length (input_lines st) = length input \<and>
      length input + 4 * (random_calls st - calls) \<le> length (output_lines st) \<and>
      (random_calls st = calls \<longrightarrow> length (output_lines st) = length input)"
  proof
    assume r: "check_map_functions random_string calls input = Inr st"
    from hoist_loop[OF r[unfolded check_map_functions_def]]
    show "length (input_lines st) = length input \<and>
      length input + 4 * (random_calls st - calls) \<le> length (output_lines st) \<and>
      (random_calls st = calls \<longrightarrow> length (output_lines st) = length input)"
      by simp
  qed
next
  show "check_map_functions random_string calls input = Inl e \<longrightarrow> e = ValueError"
  proof
    assume r: "check_map_functions random_string calls input = Inl e"
    from hoist_loop_raises[OF r[unfolded check_map_functions_def]]
    show "e = ValueError" by simp
  qed
qed

lemma hoist_no_brace:
  "check_map_functions sample_names 0 [''x.map(function(f)'', ''{ return f; });''] =
     Inl ValueError"
  by code_simp

theorem check_map_functions_length_witness:
  "check_map_functions sample_names 0
     [''var x = col.map(function(f) {'', ''  return f.val();'', ''});'', ''print(x);''] =
   Inr \<lparr>input_lines = [''var x = col.map(function(f) {'', [], [], ''print(x);''],
        output_lines = [newline, ''function func_abc(f) {'', ''  return f.val();'', ''}'',
                        ''var x = col.map(func_abc);'', [], [], [], ''print(x);''],
        random_calls = 1\<rparr> \<and>
   length [''var x = col.map(function(f) {'', [], [], ''print(x);''] =
   length [''var x = col.map(function(f) {'', ''  return f.val();'', ''});'', ''print(x);''] \<and>
   length [''var x = col.map(function(f) {'', ''  return f.val();'', ''});'', ''print(x);''] +
     4 * (1 - 0) \<le>
   length [newline, ''function func_abc(f) {'', ''  return f.val();'', ''}'',
           ''var x = col.map(func_abc);'', [], [], [], ''print(x);''] \<and>
   check_map_functions sample_names 0 [''x.map(function(f)'', ''{ return f; });''] =
     Inl ValueError"
  using check_map_functions_length[of sample_names 0
      "[''var x = col.map(function(f) {'', ''  return f.val();'', ''});'', ''print(x);'']"
      "\<lparr>input_lines = [''var x = col.map(function(f) {'', [], [], ''print(x);''],
        output_lines = [newline, ''function func_abc(f) {'', ''  return f.val();'', ''}'',
                        ''var x = col.map(func_abc);'', [], [], [], ''print(x);''],
        random_calls = 1\<rparr>" ValueError]
    check_map_functions_length[of sample_names 0
      "[''x.map(function(f)'', ''{ return f; });'']" undefined ValueError]
    hoist_multi_line hoist_no_brace
  by simp

text \<open>
  The claim as stated fails: four input lines with one callback give nine output lines.
\<close>

theorem check_map_functions_length_counterexample:
  "map_sum id (length \<circ> output_lines)
     (check_map_functions sample_names 0
        [''var x = col.map(function(f) {'', ''  return f.val();'', ''});'', ''print(x);'']) =
   Inr 9 \<and>
   length [''var x = col.map(function(f) {'', ''  return f.val();'', ''});'', ''print(x);''] = 4"
  by code_simp

text \<open>
  A list of lines none of which contains an inline anonymous-function literal
  (\<^verbatim>\<open>.map(function\<close> or \<^verbatim>\<open>.map (function\<close>) is returned unchanged.
\<close>

lemma check_map_functions_no_literal:
  assumes "list_all (\<lambda>line. \<not> is_map_function line) input"
  shows "check_map_functions random_string calls input =
           Inr \<lparr>input_lines = input, output_lines = input, random_calls = calls\<rparr>"
proof -
  have "\<forall>i \<in> set [0..<length input]. \<not> is_map_function (input ! i)"
    using assms by (simp add: list_all_length)
  then show ?thesis
    unfolding check_map_functions_def
    by (subst hoist_loop_plain) (simp_all add: map_nth)
qed

text \<open>
  The one-line call \<^verbatim>\<open>.map(function(f) { return f.val(); })\<close>: the pieces the iteration
  computes, and its result for any generated name.
\<close>

lemma one_line_parts:
  "is_map_function ''.map(function(f) { return f.val(); })''"
  "str_index ''.map(function(f) { return f.val(); })'' ''{'' = Inr 17"
  "find_matching_bracket [''.map(function(f) { return f.val(); })''] 0 17 CHR ''{'' = Inr (0, 35)"
  "str_index ''.map(function(f) { return f.val(); })'' ''function'' = Inr 5"
  "\<not> str_contains ''function'' ''(f) { return f.val(); })''"
  "slice [''.map(function(f) { return f.val(); })''] (int 0 + 1) 0 = []"
  "getitem [''.map(function(f) { return f.val(); })''] 0 = Inr ''.map(function(f) { return f.val(); })''"
  "slice_to ''.map(function(f) { return f.val(); })'' (35 + 1) = ''.map(function(f) { return f.val(); }''"
  "str_strip (slice_from ''.map(function(f) { return f.val(); })'' (35 + 1)) = '')''"
  by code_simp+

lemma one_line_header:
  "str_replace (drop 5 ''.map(function(f) { return f.val(); })'') ''function'' new =
   new @ ''(f) { return f.val(); })''"
proof -
  have "str_replace ([] @ ''function'' @ ''(f) { return f.val(); })'') ''function'' new =
        str_replace [] ''function'' new @ new @
        str_replace ''(f) { return f.val(); })'' ''function'' new"
    by (rule str_replace_occurrence) simp_all
  moreover have "str_replace ''(f) { return f.val(); })'' ''function'' new =
                 ''(f) { return f.val(); })''"
    by (rule str_replace_absent) (simp_all add: one_line_parts)
  ultimately show ?thesis by simp
qed

lemma hoist_one_line_any:
  "check_map_functions random_string calls [''.map(function(f) { return f.val(); })''] =
   Inr \<lparr>input_lines = [''''],
        output_lines = [newline, ''function func_'' @ random_string calls @ ''(f) { return f.val(); })'',
                        ''.map(function(f) { return f.val(); }'',
                        str_rstrip (''.map(func_'' @ random_string calls) @ '')'', ''''],
        random_calls = Suc calls\<rparr>"
proof -
  have step: "hoist_line random_string 0
      \<lparr>input_lines = [''.map(function(f) { return f.val(); })''], output_lines = [],
       random_calls = calls\<rparr> =
    Inr \<lparr>input_lines = [''''],
        output_lines = [newline, ''function func_'' @ random_string calls @ ''(f) { return f.val(); })'',
                        ''.map(function(f) { return f.val(); }'',
                        str_rstrip (''.map(func_'' @ random_string calls) @ '')'', ''''],
        random_calls = Suc calls\<rparr>"
    unfolding hoist_line_def Let_def
    using one_line_parts one_line_header
    by (simp add: blank_lines_def setitem_def subscript_def)
  show ?thesis
    unfolding check_map_functions_def using step by (simp add: upt_rec)
qed

text \<open>
  Claim C3. Hoisting the one-line call \<^verbatim>\<open>.map(function(f) { return f.val(); })\<close> and
  applying the hoister to the result should return that result unchanged. The code does
  not: the closing brace is on the line of the call, so the header entry is the rest of
  the line and the footer entry is the line up to the brace, which still holds the
  literal, whatever name is generated; the second application hoists it again and
  returns nine entries for five.
\<close>

theorem check_map_functions_one_line:
  "check_map_functions random_string calls [''.map(function(f) { return f.val(); })''] =
   Inr \<lparr>input_lines = [''''],
        output_lines = [newline,
                        ''function func_'' @ random_string calls @ ''(f) { return f.val(); })'',
                        ''.map(function(f) { return f.val(); }'',
                        str_rstrip (''.map(func_'' @ random_string calls) @ '')'', ''''],
        random_calls = Suc calls\<rparr> \<and>
   is_map_function ''.map(function(f) { return f.val(); }'' \<and>
   map_sum id output_lines
     (check_map_functions sample_names 0 [''.map(function(f) { return f.val(); })'']) =
   Inr [newline, ''function func_abc(f) { return f.val(); })'',
        ''.map(function(f) { return f.val(); }'', ''.map(func_abc)'', []] \<and>
   map_sum id output_lines
     (check_map_functions sample_names 1
        [newline, ''function func_abc(f) { return f.val(); })'',
         ''.map(function(f) { return f.val(); }'', ''.map(func_abc)'', []]) =
   Inr [newline, ''function func_abc(f) { return f.val(); })'',
        newline, ''function func_abc(f) { return f.val(); }'',
        ''.map(function(f) { return f.val(); }'', ''.map(func_abc'', [],
        ''.map(func_abc)'', []]"
proof (intro conjI)
  show "check_map_functions random_string calls [''.map(function(f) { return f.val(); })''] =
   Inr \<lparr>input_lines = [''''],
        output_lines = [newline,
                        ''function func_'' @ random_string calls @ ''(f) { return f.val(); })'',
                        ''.map(function(f) { return f.val(); }'',
                        str_rstrip (''.map(func_'' @ random_string calls) @ '')'', ''''],
        random_calls = Suc calls\<rparr>"
    by (rule hoist_one_line_any)
  show "is_map_function ''.map(function(f) { return f.val(); }''"
    by code_simp
  show "map_sum id output_lines
     (check_map_functions sample_names 0 [''.map(function(f) { return f.val(); })'']) =
   Inr [newline, ''function func_abc(f) { return f.val(); })'',
        ''.map(function(f) { return f.val(); }'', ''.map(func_abc)'', []]"
    by code_simp
  show "map_sum id output_lines
     (check_map_functions sample_names 1
        [newline, ''function func_abc(f) { return f.val(); })'',
         ''.map(function(f) { return f.val(); }'', ''.map(func_abc)'', []]) =
   Inr [newline, ''function func_abc(f) { return f.val(); })'',
        newline, ''function func_abc(f) { return f.val(); }'',
        ''.map(function(f) { return f.val(); }'', ''.map(func_abc'', [],
        ''.map(func_abc)'', []]"
    by code_simp
qed

section \<open>Properties of js\_to\_python\<close>

text \<open>
  The loop over the lines keeps the length of the list.
\<close>

lemma convert_function_length:
  "convert_function index line ls = Inr (line', ls') \<Longrightarrow> length ls' = length ls"
  unfolding convert_function_def Let_def
  by (auto split: sum.splits prod.splits if_splits dest!: setitem_length)

lemma convert_block_length:
  "convert_block index line ls = Inr (line', ls') \<Longrightarrow> length ls' = length ls"
  unfolding convert_block_def Let_def
  by (auto split: sum.splits prod.splits if_splits dest!: setitem_length)

lemma convert_line_length:
  "convert_line index st = Inr st' \<Longrightarrow> length (file_lines st') = length (file_lines st)"
  unfolding convert_line_def Let_def
  by (auto split: sum.splits prod.splits if_splits
           dest: convert_function_length convert_block_length)

lemma convert_loop_length:
  "for_each convert_line is st = Inr st' \<Longrightarrow> length (file_lines st') = length (file_lines st)"
proof (induction "is" arbitrary: st)
  case Nil
  then show ?case by simp
next
  case (Cons i "is")
  from Cons.prems obtain st1 where s1: "convert_line i st = Inr st1"
    and rest: "for_each convert_line is st1 = Inr st'"
    by (auto split: sum.splits)
  from convert_line_length[OF s1] Cons.IH[OF rest] show ?case by simp
qed

text \<open>
  Claim C7. When a line of the file equals \<^verbatim>\<open>import ee\<close> after stripping, the result is
  the content of the file, after the GitHub URL comment when a repository is given; no
  step of the conversion is applied.
\<close>

theorem js_to_python_already_python:
  assumes "\<exists>line \<in> set content. str_strip line = ''import ee''"
  shows "js_to_python random_string in_file content use_qgis github_repo =
     Inr ((case github_repo of
             None \<Rightarrow> []
           | Some repo \<Rightarrow> ''# GitHub URL: '' @ repo @ in_file @ newline @ newline) @
          concat content)"
  using assms by (simp add: js_to_python_def is_python_def github_url_def list_ex_iff Let_def)

theorem js_to_python_already_python_witness:
  "(\<exists>line \<in> set [''import ee'' @ newline, ''x = 5'' @ newline]. str_strip line = ''import ee'') \<and>
   js_to_python sample_names ''a.py'' [''import ee'' @ newline, ''x = 5'' @ newline] True
     (Some ''https://example.org/'') =
   Inr (''# GitHub URL: https://example.org/a.py'' @ newline @ newline @
        ''import ee'' @ newline @ ''x = 5'' @ newline) \<and>
   js_to_python sample_names ''a.py'' [''import ee'' @ newline, ''x = 5'' @ newline] True None =
   Inr (''import ee'' @ newline @ ''x = 5'' @ newline)"
proof -
  have h: "\<exists>line \<in> set [''import ee'' @ newline, ''x = 5'' @ newline].
             str_strip line = ''import ee''"
    by (simp add: py_defs)
  from js_to_python_already_python[OF h, of sample_names "''a.py''" True "Some ''https://example.org/''"]
    js_to_python_already_python[OF h, of sample_names "''a.py''" True None] h
  show ?thesis by simp
qed

end
